theory Spec2Isabelle
  imports Complex_Main "HOL-Library.Word" "HOL-Library.Signed_Division"
begin

section \<open>Data of \<^verbatim>\<open>countpairs_nopbc.c\<close>\<close>

text \<open>
  \<^verbatim>\<open>DOUBLE\<close> is the floating-point type of the coordinates. It is idealised as the
  reals: every comparison and every sum below is the exact one, so nothing here speaks
  about rounding, infinities or NaN.
\<close>

type_synonym DOUBLE = real

text \<open>
  Modelled from the spec: \<^verbatim>\<open>struct cellarray\<close> of \<^verbatim>\<open>cellarray.h\<close>, which is not among the
  sources. It is the spec's cell, a count and three coordinate arrays of that length, under
  the field names the driver uses (\<^verbatim>\<open>first->x\<close>, \<^verbatim>\<open>first->nelements\<close>).
\<close>

record cellarray =
  x :: "DOUBLE list"
  y :: "DOUBLE list"
  z :: "DOUBLE list"
  nelements :: nat

text \<open>
  The two local arrays of \<^verbatim>\<open>countpairs_nopbc\<close>: \<^verbatim>\<open>unsigned int npairs[nrpbin]\<close>
  (32-bit counters, \<^verbatim>\<open>++\<close> wraps around) and, in a build with \<^verbatim>\<open>OUTPUT_RPAVG\<close>,
  \<^verbatim>\<open>DOUBLE rpavg[nrpbin]\<close>. A build without \<^verbatim>\<open>OUTPUT_RPAVG\<close> has no \<^verbatim>\<open>rpavg\<close> and
  updates \<^verbatim>\<open>npairs\<close> by the same statements.
\<close>

record counters =
  npairs :: "32 word list"
  rpavg :: "DOUBLE list"

definition BLOCK_SIZE :: nat where
  "BLOCK_SIZE = 16"

section \<open>The squared bin edges (lines 85--88)\<close>

text \<open>\<^verbatim>\<open>for(i=0;i<nrpbin;i++) rupp_sqr[i] = rupp[i]*rupp[i];\<close>\<close>

definition rupp_sqr_of :: "nat \<Rightarrow> DOUBLE list \<Rightarrow> DOUBLE list" where
  "rupp_sqr_of nrpbin rupp = map (\<lambda>i. rupp ! i * rupp ! i) [0..<nrpbin]"

section \<open>The scalar pair kernel (lines 179--210)\<close>

text \<open>
  Lines 200--208: the descending scan
  \<^verbatim>\<open>for(kbin=nrpbin-1;kbin>=1;kbin--) if(r2 >= rupp_sqr[kbin-1]) { npairs[kbin]++; rpavg[kbin] += r; break; }\<close>.
  The fourth argument is the current \<^verbatim>\<open>kbin\<close>.
\<close>

fun kbin_loop :: "DOUBLE list \<Rightarrow> DOUBLE \<Rightarrow> DOUBLE \<Rightarrow> nat \<Rightarrow> counters \<Rightarrow> counters" where
  "kbin_loop rupp_sqr r2 r 0 s = s"
| "kbin_loop rupp_sqr r2 r (Suc k) s =
     (if r2 \<ge> rupp_sqr ! k
      then s\<lparr>npairs := (npairs s)[Suc k := npairs s ! Suc k + 1],
             rpavg := (rpavg s)[Suc k := rpavg s ! Suc k + r]\<rparr>
      else kbin_loop rupp_sqr r2 r k s)"

text \<open>
  The same scan, returning only the \<^verbatim>\<open>kbin\<close> at which the \<^verbatim>\<open>break\<close> is taken,
  and \<open>None\<close> when the loop runs down to \<^verbatim>\<open>kbin = 0\<close> without a \<^verbatim>\<open>break\<close>.
\<close>

fun kbin_break :: "DOUBLE list \<Rightarrow> DOUBLE \<Rightarrow> nat \<Rightarrow> nat option" where
  "kbin_break rupp_sqr r2 0 = None"
| "kbin_break rupp_sqr r2 (Suc k) =
     (if r2 \<ge> rupp_sqr ! k then Some (Suc k) else kbin_break rupp_sqr r2 k)"

text \<open>
  \<^verbatim>\<open>SQRT\<close> is a macro of \<^verbatim>\<open>utils.h\<close>, which is not among the sources: it is a parameter
  of every function that takes a square root.

  Lines 190--208, the body of the \<^verbatim>\<open>jj\<close> loop for one pair: the squared distance,
  the range filter \<^verbatim>\<open>if(r2 >= sqr_rpmax || r2 < sqr_rpmin) continue;\<close> and the scan.
  \<^verbatim>\<open>sqr_rpmax = rupp_sqr[nrpbin-1]\<close> and \<^verbatim>\<open>sqr_rpmin = rupp_sqr[0]\<close> (lines 102--103).
\<close>

definition sqr_dist :: "DOUBLE \<Rightarrow> DOUBLE \<Rightarrow> DOUBLE \<Rightarrow> DOUBLE \<Rightarrow> DOUBLE \<Rightarrow> DOUBLE \<Rightarrow> DOUBLE" where
  "sqr_dist x1pos y1pos z1pos x2pos y2pos z2pos =
     (let dx = x1pos - x2pos; dy = y1pos - y2pos; dz = z1pos - z2pos
      in dx * dx + dy * dy + dz * dz)"

definition bin_r2 :: "(DOUBLE \<Rightarrow> DOUBLE) \<Rightarrow> nat \<Rightarrow> DOUBLE list \<Rightarrow> DOUBLE \<Rightarrow> counters \<Rightarrow> counters" where
  "bin_r2 SQRT nrpbin rupp_sqr r2 s =
     (let sqr_rpmax = rupp_sqr ! (nrpbin - 1); sqr_rpmin = rupp_sqr ! 0
      in if r2 \<ge> sqr_rpmax \<or> r2 < sqr_rpmin then s
         else kbin_loop rupp_sqr r2 (SQRT r2) (nrpbin - 1) s)"

definition scalar_pair ::
  "(DOUBLE \<Rightarrow> DOUBLE) \<Rightarrow> nat \<Rightarrow> DOUBLE list \<Rightarrow> DOUBLE \<Rightarrow> DOUBLE \<Rightarrow> DOUBLE \<Rightarrow> cellarray \<Rightarrow> nat \<Rightarrow> counters \<Rightarrow> counters" where
  "scalar_pair SQRT nrpbin rupp_sqr x1pos y1pos z1pos second j s =
     bin_r2 SQRT nrpbin rupp_sqr
       (sqr_dist x1pos y1pos z1pos (x second ! j) (y second ! j) (z second ! j)) s"

text \<open>
  Lines 185--210: the \<^verbatim>\<open>j\<close> loop in steps of \<^verbatim>\<open>BLOCK_SIZE\<close>, with the \<^verbatim>\<open>jj\<close> loop
  over the block inside.
\<close>

function scalar_j_loop ::
  "(DOUBLE \<Rightarrow> DOUBLE) \<Rightarrow> nat \<Rightarrow> DOUBLE list \<Rightarrow> DOUBLE \<Rightarrow> DOUBLE \<Rightarrow> DOUBLE \<Rightarrow> cellarray \<Rightarrow> nat \<Rightarrow> counters \<Rightarrow> counters" where
  "scalar_j_loop SQRT nrpbin rupp_sqr x1pos y1pos z1pos second j s =
     (if j < nelements second then
        (let block_size = nelements second - j;
             block_size = (if block_size > BLOCK_SIZE then BLOCK_SIZE else block_size)
         in scalar_j_loop SQRT nrpbin rupp_sqr x1pos y1pos z1pos second (j + BLOCK_SIZE)
              (fold (\<lambda>jj. scalar_pair SQRT nrpbin rupp_sqr x1pos y1pos z1pos second (j + jj))
                 [0..<block_size] s))
      else s)"
  by pat_completeness auto
termination
  by (relation "measure (\<lambda>(SQRT, nrpbin, rupp_sqr, x1pos, y1pos, z1pos, second, j, s). nelements second - j)")
     (auto simp: BLOCK_SIZE_def)

declare scalar_j_loop.simps [simp del]

text \<open>Lines 179--334 without \<^verbatim>\<open>USE_AVX\<close>: the \<^verbatim>\<open>i\<close> loop over the first cell.\<close>

definition scalar_kernel ::
  "(DOUBLE \<Rightarrow> DOUBLE) \<Rightarrow> nat \<Rightarrow> DOUBLE list \<Rightarrow> cellarray \<Rightarrow> cellarray \<Rightarrow> counters \<Rightarrow> counters" where
  "scalar_kernel SQRT nrpbin rupp_sqr first second s =
     fold (\<lambda>i. scalar_j_loop SQRT nrpbin rupp_sqr (x first ! i) (y first ! i) (z first ! i) second 0)
       [0..<nelements first] s"

section \<open>The AVX pair kernel (lines 228--330)\<close>

text \<open>
  Modelled from the spec: the macros of \<^verbatim>\<open>avx_calls.h\<close>, which is not among the sources.
  They are given the lane-wise meaning of the operations the spec's SIMD form names
  (broadcast, load of consecutive points, comparison masks, count of the lanes set), which
  is that of the intrinsics the macros are named after: a register of \<^verbatim>\<open>NVEC\<close> lanes is a
  list of \<^verbatim>\<open>NVEC\<close> values, the result of a comparison is the list of its lanes' truth values
  (a lane of all ones is \<open>True\<close>). \<^verbatim>\<open>NVEC\<close> is a parameter.
\<close>

definition AVX_SET_FLOAT :: "nat \<Rightarrow> DOUBLE \<Rightarrow> DOUBLE list" where
  "AVX_SET_FLOAT NVEC v = replicate NVEC v"

definition AVX_LOAD_FLOATS_UNALIGNED :: "nat \<Rightarrow> DOUBLE list \<Rightarrow> nat \<Rightarrow> DOUBLE list" where
  "AVX_LOAD_FLOATS_UNALIGNED NVEC mem j = map (\<lambda>l. mem ! (j + l)) [0..<NVEC]"

definition AVX_SUBTRACT_FLOATS :: "DOUBLE list \<Rightarrow> DOUBLE list \<Rightarrow> DOUBLE list" where
  "AVX_SUBTRACT_FLOATS a b = map2 (-) a b"

definition AVX_ADD_FLOATS :: "DOUBLE list \<Rightarrow> DOUBLE list \<Rightarrow> DOUBLE list" where
  "AVX_ADD_FLOATS a b = map2 (+) a b"

definition AVX_SQUARE_FLOAT :: "DOUBLE list \<Rightarrow> DOUBLE list" where
  "AVX_SQUARE_FLOAT a = map (\<lambda>v. v * v) a"

definition AVX_SQRT_FLOAT :: "(DOUBLE \<Rightarrow> DOUBLE) \<Rightarrow> DOUBLE list \<Rightarrow> DOUBLE list" where
  "AVX_SQRT_FLOAT SQRT a = map SQRT a"

text \<open>\<^verbatim>\<open>AVX_COMPARE_FLOATS(a,b,_CMP_LT_OS)\<close> and \<^verbatim>\<open>AVX_COMPARE_FLOATS(a,b,_CMP_GE_OS)\<close>.\<close>

definition AVX_COMPARE_FLOATS_LT :: "DOUBLE list \<Rightarrow> DOUBLE list \<Rightarrow> bool list" where
  "AVX_COMPARE_FLOATS_LT a b = map2 (<) a b"

definition AVX_COMPARE_FLOATS_GE :: "DOUBLE list \<Rightarrow> DOUBLE list \<Rightarrow> bool list" where
  "AVX_COMPARE_FLOATS_GE a b = map2 (\<ge>) a b"

definition AVX_BITWISE_AND :: "bool list \<Rightarrow> bool list \<Rightarrow> bool list" where
  "AVX_BITWISE_AND a b = map2 (\<and>) a b"

text \<open>\<^verbatim>\<open>movemask\<close>: bit \<open>l\<close> of the result is the truth value of lane \<open>l\<close>.\<close>

definition AVX_TEST_COMPARISON :: "bool list \<Rightarrow> nat" where
  "AVX_TEST_COMPARISON m = foldr (\<lambda>b n. of_bool b + 2 * n) m 0"

text \<open>\<^verbatim>\<open>popcnt\<close>: the number of bits set.\<close>

function AVX_BIT_COUNT_INT :: "nat \<Rightarrow> nat" where
  "AVX_BIT_COUNT_INT n = (if n = 0 then 0 else n mod 2 + AVX_BIT_COUNT_INT (n div 2))"
  by pat_completeness auto
termination
  by (relation "measure (\<lambda>n. n)") auto

declare AVX_BIT_COUNT_INT.simps [simp del]

text \<open>\<^verbatim>\<open>blendv(a, b, mask)\<close>: lane of \<open>b\<close> where the mask is set, lane of \<open>a\<close> elsewhere.\<close>

definition AVX_BLEND_FLOATS_WITH_MASK :: "DOUBLE list \<Rightarrow> DOUBLE list \<Rightarrow> bool list \<Rightarrow> DOUBLE list" where
  "AVX_BLEND_FLOATS_WITH_MASK a b m_mask =
     map (\<lambda>(m, va, vb). if m then vb else va) (zip m_mask (zip a b))"

text \<open>Truncation towards zero.\<close>

definition AVX_TRUNCATE_FLOAT_TO_INT :: "DOUBLE list \<Rightarrow> int list" where
  "AVX_TRUNCATE_FLOAT_TO_INT a = map (\<lambda>v. if 0 \<le> v then \<lfloor>v\<rfloor> else \<lceil>v\<rceil>) a"

text \<open>
  Lines 273--286: the scan over the bins for all lanes at once. The arguments after the
  table are the lanes' \<^verbatim>\<open>r2\<close>, the current \<^verbatim>\<open>kbin\<close>, \<^verbatim>\<open>m_mask_left\<close>, \<^verbatim>\<open>m_rpbin\<close> and
  \<^verbatim>\<open>npairs\<close>; \<^verbatim>\<open>m_rupp_sqr[k]\<close> is \<^verbatim>\<open>AVX_SET_FLOAT(rupp_sqr[k])\<close> and \<^verbatim>\<open>m_kbin[k]\<close> is
  \<^verbatim>\<open>AVX_SET_FLOAT((DOUBLE) k)\<close> (lines 106--115).
\<close>

fun avx_kbin_loop ::
  "nat \<Rightarrow> DOUBLE list \<Rightarrow> DOUBLE list \<Rightarrow> nat \<Rightarrow> bool list \<Rightarrow> DOUBLE list \<Rightarrow> 32 word list
     \<Rightarrow> 32 word list \<times> DOUBLE list" where
  "avx_kbin_loop NVEC rupp_sqr r2 0 m_mask_left m_rpbin np = (np, m_rpbin)"
| "avx_kbin_loop NVEC rupp_sqr r2 (Suc k) m_mask_left m_rpbin np =
     (let m1 = AVX_COMPARE_FLOATS_GE r2 (AVX_SET_FLOAT NVEC (rupp_sqr ! k));
          m_bin_mask = AVX_BITWISE_AND m1 m_mask_left;
          m_mask_left = AVX_COMPARE_FLOATS_LT r2 (AVX_SET_FLOAT NVEC (rupp_sqr ! k));
          test2 = AVX_TEST_COMPARISON m_bin_mask;
          np = np[Suc k := np ! Suc k + of_nat (AVX_BIT_COUNT_INT test2)];
          m_rpbin = AVX_BLEND_FLOATS_WITH_MASK m_rpbin (AVX_SET_FLOAT NVEC (of_nat (Suc k))) m_bin_mask;
          test3 = AVX_TEST_COMPARISON m_mask_left
      in if test3 = 0 then (np, m_rpbin)
         else avx_kbin_loop NVEC rupp_sqr r2 k m_mask_left m_rpbin np)"

text \<open>
  Lines 234--305: one step of the vector \<^verbatim>\<open>j\<close> loop, on the \<^verbatim>\<open>NVEC\<close> points of the second
  cell from index \<^verbatim>\<open>j\<close> on. The two \<^verbatim>\<open>continue\<close> statements leave the counters as they are.
\<close>

definition avx_block ::
  "(DOUBLE \<Rightarrow> DOUBLE) \<Rightarrow> nat \<Rightarrow> nat \<Rightarrow> DOUBLE list \<Rightarrow> DOUBLE \<Rightarrow> DOUBLE \<Rightarrow> DOUBLE \<Rightarrow> cellarray \<Rightarrow> nat \<Rightarrow> counters \<Rightarrow> counters" where
  "avx_block SQRT NVEC nrpbin rupp_sqr x1pos y1pos z1pos second j s =
     (let sqr_rpmax = rupp_sqr ! (nrpbin - 1); sqr_rpmin = rupp_sqr ! 0;
          m_x1pos = AVX_SET_FLOAT NVEC x1pos;
          m_y1pos = AVX_SET_FLOAT NVEC y1pos;
          m_z1pos = AVX_SET_FLOAT NVEC z1pos;
          x2pos = AVX_LOAD_FLOATS_UNALIGNED NVEC (x second) j;
          y2pos = AVX_LOAD_FLOATS_UNALIGNED NVEC (y second) j;
          z2pos = AVX_LOAD_FLOATS_UNALIGNED NVEC (z second) j;
          m_xdiff = AVX_SUBTRACT_FLOATS m_x1pos x2pos;
          m_ydiff = AVX_SUBTRACT_FLOATS m_y1pos y2pos;
          m_zdiff = AVX_SUBTRACT_FLOATS m_z1pos z2pos;
          m_sqr_rpmax = AVX_SET_FLOAT NVEC sqr_rpmax;
          m_sqr_rpmin = AVX_SET_FLOAT NVEC sqr_rpmin;
          m_xdiff_sqr = AVX_SQUARE_FLOAT m_xdiff;
          m_ydiff_sqr = AVX_SQUARE_FLOAT m_ydiff;
          m_zdiff_sqr = AVX_SQUARE_FLOAT m_zdiff;
          m_xydiff_sqr_sum = AVX_ADD_FLOATS m_xdiff_sqr m_ydiff_sqr;
          r2 = AVX_ADD_FLOATS m_zdiff_sqr m_xydiff_sqr_sum;
          m_mask_left = AVX_COMPARE_FLOATS_LT r2 m_sqr_rpmax
      in if AVX_TEST_COMPARISON m_mask_left = 0 then s
         else
           let m_mask = AVX_BITWISE_AND m_mask_left (AVX_COMPARE_FLOATS_GE r2 m_sqr_rpmin)
           in if AVX_TEST_COMPARISON m_mask = 0 then s
              else
                let r2 = AVX_BLEND_FLOATS_WITH_MASK m_sqr_rpmax r2 m_mask;
                    m_mask_left = AVX_COMPARE_FLOATS_LT r2 m_sqr_rpmax;
                    union_mDperp = AVX_SQRT_FLOAT SQRT r2;
                    m_rpbin = AVX_SET_FLOAT NVEC 0;
                    (np, m_rpbin) = avx_kbin_loop NVEC rupp_sqr r2 (nrpbin - 1) m_mask_left m_rpbin (npairs s);
                    union_rpbin = AVX_TRUNCATE_FLOAT_TO_INT m_rpbin
                in s\<lparr>npairs := np,
                     rpavg := fold (\<lambda>jj rp. let kbin = nat (union_rpbin ! jj); r = union_mDperp ! jj
                                            in rp[kbin := rp ! kbin + r])
                                [0..<NVEC] (rpavg s)\<rparr>)"

text \<open>
  Lines 233--306: \<^verbatim>\<open>for(j=0;j<=(second->nelements-NVEC);j+=NVEC)\<close>; the result carries the
  \<^verbatim>\<open>j\<close> the loop ends with. \<^verbatim>\<open>NVEC\<close> is a positive constant of the build (the loop would
  not advance otherwise), which the guard \<open>0 < NVEC\<close> records.
\<close>

function avx_j_loop ::
  "(DOUBLE \<Rightarrow> DOUBLE) \<Rightarrow> nat \<Rightarrow> nat \<Rightarrow> DOUBLE list \<Rightarrow> DOUBLE \<Rightarrow> DOUBLE \<Rightarrow> DOUBLE \<Rightarrow> cellarray \<Rightarrow> nat \<Rightarrow> counters
     \<Rightarrow> nat \<times> counters" where
  "avx_j_loop SQRT NVEC nrpbin rupp_sqr x1pos y1pos z1pos second j s =
     (if 0 < NVEC \<and> j + NVEC \<le> nelements second then
        avx_j_loop SQRT NVEC nrpbin rupp_sqr x1pos y1pos z1pos second (j + NVEC)
          (avx_block SQRT NVEC nrpbin rupp_sqr x1pos y1pos z1pos second j s)
      else (j, s))"
  by pat_completeness auto
termination
  by (relation "measure (\<lambda>(SQRT, NVEC, nrpbin, rupp_sqr, x1pos, y1pos, z1pos, second, j, s).
        Suc (nelements second) - j)") auto

declare avx_j_loop.simps [simp del]

text \<open>
  Lines 179--334 with \<^verbatim>\<open>USE_AVX\<close>: for every point of the first cell the vector loop, then
  the scalar loop over the remainder (lines 309--330).
\<close>

definition avx_kernel ::
  "(DOUBLE \<Rightarrow> DOUBLE) \<Rightarrow> nat \<Rightarrow> nat \<Rightarrow> DOUBLE list \<Rightarrow> cellarray \<Rightarrow> cellarray \<Rightarrow> counters \<Rightarrow> counters" where
  "avx_kernel SQRT NVEC nrpbin rupp_sqr first second s =
     fold (\<lambda>i s.
         let x1pos = x first ! i; y1pos = y first ! i; z1pos = z first ! i;
             (j, s) = avx_j_loop SQRT NVEC nrpbin rupp_sqr x1pos y1pos z1pos second 0 s
         in fold (scalar_pair SQRT nrpbin rupp_sqr x1pos y1pos z1pos second) [j..<nelements second] s)
       [0..<nelements first] s"

section \<open>The driver's index arithmetic (lines 142--145)\<close>

text \<open>
  \<^verbatim>\<open>icell\<close>, \<^verbatim>\<open>nmesh_y\<close>, \<^verbatim>\<open>nmesh_z\<close>, \<^verbatim>\<open>ix\<close>, \<^verbatim>\<open>iy\<close> and \<^verbatim>\<open>iz\<close> are \<^verbatim>\<open>int\<close>, 32 bits wide in two's
  complement. \<open>int_wrap v\<close> is the value an \<^verbatim>\<open>int\<close> holds after an operation whose exact result
  is \<open>v\<close>: the result reduced modulo \<open>2 ^ 32\<close> into \<open>- 2 ^ 31 .. 2 ^ 31 - 1\<close>. (The C standard
  leaves signed overflow undefined; this is what the compiled arithmetic does.)
\<close>

definition int_wrap :: "int \<Rightarrow> int" where
  "int_wrap v = (v + 2 ^ 31) mod 2 ^ 32 - 2 ^ 31"

text \<open>
  Lines 142--144, every operation an \<^verbatim>\<open>int\<close> operation, \<^verbatim>\<open>/\<close> and \<^verbatim>\<open>%\<close> truncating towards zero:
  \<^verbatim>\<open>iz = icell % nmesh_z\<close>, \<^verbatim>\<open>ix = icell / (nmesh_z * nmesh_y)\<close>,
  \<^verbatim>\<open>iy = (icell - iz - ix*nmesh_z*nmesh_y)/nmesh_z\<close>. The arguments are values of \<^verbatim>\<open>int\<close>
  variables.
\<close>

definition cell_iz :: "int \<Rightarrow> int \<Rightarrow> int" where
  "cell_iz nmesh_z icell = icell smod nmesh_z"

definition cell_ix :: "int \<Rightarrow> int \<Rightarrow> int \<Rightarrow> int" where
  "cell_ix nmesh_y nmesh_z icell = int_wrap (icell sdiv int_wrap (nmesh_z * nmesh_y))"

definition cell_iy :: "int \<Rightarrow> int \<Rightarrow> int \<Rightarrow> int" where
  "cell_iy nmesh_y nmesh_z icell =
     int_wrap
       (int_wrap (int_wrap (icell - cell_iz nmesh_z icell)
                  - int_wrap (int_wrap (cell_ix nmesh_y nmesh_z icell * nmesh_z) * nmesh_y))
        sdiv nmesh_z)"

text \<open>
  Line 145: \<^verbatim>\<open>assert((iz + nmesh_z*iy + nmesh_z*nmesh_y*ix) == icell)\<close>, again in \<^verbatim>\<open>int\<close>
  arithmetic.
\<close>

definition index_assert :: "int \<Rightarrow> int \<Rightarrow> int \<Rightarrow> bool" where
  "index_assert nmesh_y nmesh_z icell \<longleftrightarrow>
     int_wrap
       (int_wrap (cell_iz nmesh_z icell + int_wrap (nmesh_z * cell_iy nmesh_y nmesh_z icell))
        + int_wrap (int_wrap (nmesh_z * nmesh_y) * cell_ix nmesh_y nmesh_z icell)) = icell"

subsection \<open>The same arithmetic without overflow\<close>

text \<open>
  The lattice coordinates of the cell with linear index \<open>icell\<close> and the asserted identity in
  exact integer arithmetic. Where \<^verbatim>\<open>nmesh_z * nmesh_y\<close> does not overflow they are the values
  of lines 142--145 above (lemma \<open>cell_coords_exact\<close>). The loops of the driver are modelled
  with them: the model of the driver is the driver on lattices whose cells an \<^verbatim>\<open>int\<close> can
  count.
\<close>

definition lattice_iz :: "int \<Rightarrow> int \<Rightarrow> int" where
  "lattice_iz nmesh_z icell = icell smod nmesh_z"

definition lattice_ix :: "int \<Rightarrow> int \<Rightarrow> int \<Rightarrow> int" where
  "lattice_ix nmesh_y nmesh_z icell = icell sdiv (nmesh_z * nmesh_y)"

definition lattice_iy :: "int \<Rightarrow> int \<Rightarrow> int \<Rightarrow> int" where
  "lattice_iy nmesh_y nmesh_z icell =
     (icell - lattice_iz nmesh_z icell - lattice_ix nmesh_y nmesh_z icell * nmesh_z * nmesh_y) sdiv nmesh_z"

definition lattice_assert :: "int \<Rightarrow> int \<Rightarrow> int \<Rightarrow> bool" where
  "lattice_assert nmesh_y nmesh_z icell \<longleftrightarrow>
     lattice_iz nmesh_z icell + nmesh_z * lattice_iy nmesh_y nmesh_z icell
       + nmesh_z * nmesh_y * lattice_ix nmesh_y nmesh_z icell = icell"

section \<open>The lattice (\<^verbatim>\<open>gridlink_nopbc\<close>)\<close>

text \<open>
  Modelled from the spec: \<^verbatim>\<open>gridlink_nopbc\<close>, declared in \<^verbatim>\<open>gridlink.h\<close>; its source is not
  among the sources. The number of cells along an axis is
  \<open>max(1, floor((max - min) * binRefineFactor / rmax))\<close>.
\<close>

definition mesh_size :: "DOUBLE \<Rightarrow> DOUBLE \<Rightarrow> DOUBLE \<Rightarrow> int \<Rightarrow> int" where
  "mesh_size lo hi rmax bin_refine_factor = max 1 \<lfloor>(hi - lo) * of_int bin_refine_factor / rmax\<rfloor>"

text \<open>
  Modelled from the spec: the cell coordinate of a point along one axis in \<^verbatim>\<open>gridlink_nopbc\<close>,
  \<open>clamp(floor((p - min) / w), 0, n - 1)\<close> with the cell width \<open>w = (max - min) / n\<close>.
\<close>

definition mesh_coord :: "DOUBLE \<Rightarrow> DOUBLE \<Rightarrow> int \<Rightarrow> DOUBLE \<Rightarrow> int" where
  "mesh_coord lo hi n p = (let w = (hi - lo) / of_int n in max 0 (min (n - 1) \<lfloor>(p - lo) / w\<rfloor>))"

text \<open>
  Modelled from the spec: the linear index of the cell that point \<open>i\<close> goes to in
  \<^verbatim>\<open>gridlink_nopbc\<close>, \<open>ix * ny * nz + iy * nz + iz\<close>.
\<close>

definition mesh_index ::
  "DOUBLE \<Rightarrow> DOUBLE \<Rightarrow> DOUBLE \<Rightarrow> DOUBLE \<Rightarrow> DOUBLE \<Rightarrow> DOUBLE \<Rightarrow> int \<Rightarrow> int \<Rightarrow> int
     \<Rightarrow> DOUBLE list \<Rightarrow> DOUBLE list \<Rightarrow> DOUBLE list \<Rightarrow> nat \<Rightarrow> int" where
  "mesh_index xmin xmax ymin ymax zmin zmax nx ny nz X Y Z i =
     mesh_coord xmin xmax nx (X ! i) * ny * nz
       + mesh_coord ymin ymax ny (Y ! i) * nz
       + mesh_coord zmin zmax nz (Z ! i)"

text \<open>
  Modelled from the spec: a cell built by \<^verbatim>\<open>gridlink_nopbc\<close>. It holds copies of the
  coordinates of the points whose index is \<open>c\<close>, here in the order of the input.
\<close>

definition lattice_cell ::
  "nat \<Rightarrow> DOUBLE list \<Rightarrow> DOUBLE list \<Rightarrow> DOUBLE list \<Rightarrow> (nat \<Rightarrow> int) \<Rightarrow> int \<Rightarrow> cellarray" where
  "lattice_cell np X Y Z index c =
     (let members = filter (\<lambda>i. index i = c) [0..<np]
      in \<lparr>x = map ((!) X) members, y = map ((!) Y) members, z = map ((!) Z) members,
          nelements = length members\<rparr>)"

text \<open>
  Modelled from the spec: \<^verbatim>\<open>gridlink_nopbc\<close> itself. The lattice has \<open>nx * ny * nz\<close> cells;
  the result is the lattice with the three dimensions the C function returns through
  \<^verbatim>\<open>nlattice_x\<close>, \<^verbatim>\<open>nlattice_y\<close>, \<^verbatim>\<open>nlattice_z\<close>.
\<close>

definition gridlink_nopbc ::
  "nat \<Rightarrow> DOUBLE list \<Rightarrow> DOUBLE list \<Rightarrow> DOUBLE list \<Rightarrow> DOUBLE \<Rightarrow> DOUBLE \<Rightarrow> DOUBLE \<Rightarrow> DOUBLE \<Rightarrow> DOUBLE \<Rightarrow> DOUBLE
     \<Rightarrow> DOUBLE \<Rightarrow> int \<Rightarrow> int \<Rightarrow> int \<Rightarrow> cellarray list \<times> int \<times> int \<times> int" where
  "gridlink_nopbc np X Y Z xmin xmax ymin ymax zmin zmax rmax xbin_refine_factor ybin_refine_factor
       zbin_refine_factor =
     (let nx = mesh_size xmin xmax rmax xbin_refine_factor;
          ny = mesh_size ymin ymax rmax ybin_refine_factor;
          nz = mesh_size zmin zmax rmax zbin_refine_factor
      in (map (lattice_cell np X Y Z (mesh_index xmin xmax ymin ymax zmin zmax nx ny nz X Y Z))
            [0..nx * ny * nz - 1],
          nx, ny, nz))"

section \<open>The driver \<^verbatim>\<open>countpairs_nopbc\<close>\<close>

text \<open>
  The build chooses the kernel: the scalar loops, or with \<^verbatim>\<open>USE_AVX\<close> the vector loops for
  a lane count \<^verbatim>\<open>NVEC\<close>. (\<^verbatim>\<open>USE_ISPC\<close> calls \<^verbatim>\<open>compute_distances_two_cells\<close>, which is not
  among the sources and is not modelled.)
\<close>

datatype kernel_build = SCALAR | AVX nat

definition pair_kernel ::
  "(DOUBLE \<Rightarrow> DOUBLE) \<Rightarrow> kernel_build \<Rightarrow> nat \<Rightarrow> DOUBLE list \<Rightarrow> cellarray \<Rightarrow> cellarray \<Rightarrow> counters \<Rightarrow> counters" where
  "pair_kernel SQRT build nrpbin rupp_sqr first second s =
     (case build of
        SCALAR \<Rightarrow> scalar_kernel SQRT nrpbin rupp_sqr first second s
      | AVX NVEC \<Rightarrow> avx_kernel SQRT NVEC nrpbin rupp_sqr first second s)"

text \<open>
  A loop whose body can abort: \<open>None\<close> is a failed \<^verbatim>\<open>assert\<close>, which ends the program.
\<close>

fun fold_opt :: "('a \<Rightarrow> 's \<Rightarrow> 's option) \<Rightarrow> 'a list \<Rightarrow> 's \<Rightarrow> 's option" where
  "fold_opt f [] s = Some s"
| "fold_opt f (a # as) s = (case f a s of None \<Rightarrow> None | Some s' \<Rightarrow> fold_opt f as s')"

text \<open>
  Lines 141--346: the body of the \<^verbatim>\<open>icell\<close> loop, its index arithmetic taken without
  overflow. The \<^verbatim>\<open>assert\<close> of line 145 and the one of line 166 are the two \<open>None\<close>
  branches; the three \<^verbatim>\<open>continue\<close> statements skip the neighbours outside the lattice.
\<close>

definition cell_body ::
  "(cellarray \<Rightarrow> cellarray \<Rightarrow> counters \<Rightarrow> counters) \<Rightarrow> int \<Rightarrow> int \<Rightarrow> int \<Rightarrow> int
     \<Rightarrow> cellarray list \<Rightarrow> cellarray list \<Rightarrow> int \<Rightarrow> counters \<Rightarrow> counters option" where
  "cell_body kern bin_refine_factor nmesh_x nmesh_y nmesh_z lattice1 lattice2 icell s =
     (let first = lattice1 ! nat icell;
          iz = lattice_iz nmesh_z icell;
          ix = lattice_ix nmesh_y nmesh_z icell;
          iy = lattice_iy nmesh_y nmesh_z icell
      in if \<not> lattice_assert nmesh_y nmesh_z icell then None
         else
           fold_opt (\<lambda>iix s.
               let iiix = iix + ix
               in if iiix < 0 \<or> iiix \<ge> nmesh_x then Some s
                  else
                    fold_opt (\<lambda>iiy s.
                        let iiiy = iiy + iy
                        in if iiiy < 0 \<or> iiiy \<ge> nmesh_y then Some s
                           else
                             fold_opt (\<lambda>iiz s.
                                 let iiiz = iiz + iz
                                 in if iiiz < 0 \<or> iiiz \<ge> nmesh_z then Some s
                                    else if \<not> (iiix \<ge> 0 \<and> iiix < nmesh_x \<and> iiiy \<ge> 0 \<and> iiiy < nmesh_y
                                               \<and> iiiz \<ge> 0 \<and> iiiz < nmesh_z) then None
                                    else
                                      let index2 = iiix * nmesh_y * nmesh_z + iiiy * nmesh_z + iiiz;
                                          second = lattice2 ! nat index2
                                      in Some (kern first second s))
                               [- bin_refine_factor..bin_refine_factor] s)
                      [- bin_refine_factor..bin_refine_factor] s)
             [- bin_refine_factor..bin_refine_factor] s)"

text \<open>
  What the call leaves behind: the caller's array \<^verbatim>\<open>*paircounts\<close> and the lines written to
  \<^verbatim>\<open>stdout\<close>, each with the count, \<^verbatim>\<open>rpavg\<close>, \<^verbatim>\<open>rlow\<close> and \<^verbatim>\<open>rupp[i]\<close>. A slot of
  \<^verbatim>\<open>*paircounts\<close> is an \<^verbatim>\<open>int\<close>: a 32-bit word, whose value as an \<^verbatim>\<open>int\<close> is its \<open>sint\<close>.
\<close>

record result =
  histogram :: "32 word list"
  printed :: "(32 word \<times> DOUBLE \<times> DOUBLE \<times> DOUBLE) list"

text \<open>
  Lines 385--403: the means \<^verbatim>\<open>rpavg[i] /= (DOUBLE) npairs[i]\<close> where \<^verbatim>\<open>npairs[i] > 0\<close>, then for
  \<^verbatim>\<open>i = 1 .. nrpbin-1\<close> the store \<^verbatim>\<open>(*paircounts)[i] = npairs[i]\<close> (the conversion
  from \<^verbatim>\<open>unsigned int\<close> to \<^verbatim>\<open>int\<close> keeps the bits) and the printed line. The loop starts at 1.
\<close>

definition report_bins :: "nat \<Rightarrow> DOUBLE list \<Rightarrow> 32 word list \<Rightarrow> counters \<Rightarrow> result" where
  "report_bins nrpbin rupp paircounts s =
     (let means = map (\<lambda>i. if npairs s ! i > 0 then rpavg s ! i / real (unat (npairs s ! i))
                           else rpavg s ! i) [0..<nrpbin];
          (pc, out, rlow) =
             fold (\<lambda>i (pc, out, rlow).
                     (pc[i := npairs s ! i],
                      out @ [(npairs s ! i, means ! i, rlow, rupp ! i)],
                      rupp ! i))
               [1..<nrpbin] (paircounts, [], rupp ! 0)
      in \<lparr>histogram = pc, printed = out\<rparr>)"

text \<open>
  The build without \<^verbatim>\<open>USE_OMP\<close>. \<^verbatim>\<open>bin_refine_factor\<close> is 2 in both arms (lines 40--45);
  with \<^verbatim>\<open>autocorr == 0\<close> the second lattice is built from the second point set and the three
  \<^verbatim>\<open>assert\<close>s of lines 70--72 compare the dimensions, otherwise it is the first lattice.
  The last argument is the content of \<^verbatim>\<open>*paircounts\<close> at the call.
\<close>

definition countpairs_nopbc ::
  "(DOUBLE \<Rightarrow> DOUBLE) \<Rightarrow> kernel_build \<Rightarrow> nat \<Rightarrow> DOUBLE list \<Rightarrow> DOUBLE list \<Rightarrow> DOUBLE list
     \<Rightarrow> nat \<Rightarrow> DOUBLE list \<Rightarrow> DOUBLE list \<Rightarrow> DOUBLE list
     \<Rightarrow> DOUBLE \<Rightarrow> DOUBLE \<Rightarrow> DOUBLE \<Rightarrow> DOUBLE \<Rightarrow> DOUBLE \<Rightarrow> DOUBLE
     \<Rightarrow> int \<Rightarrow> DOUBLE \<Rightarrow> nat \<Rightarrow> DOUBLE list \<Rightarrow> 32 word list \<Rightarrow> result option" where
  "countpairs_nopbc SQRT build ND1 X1 Y1 Z1 ND2 X2 Y2 Z2 xmin xmax ymin ymax zmin zmax autocorr rpmax
       nrpbin rupp paircounts =
     (let bin_refine_factor = (if autocorr = 1 then 2 else 2);
          (lattice1, nmesh_x, nmesh_y, nmesh_z) =
             gridlink_nopbc ND1 X1 Y1 Z1 xmin xmax ymin ymax zmin zmax rpmax
               bin_refine_factor bin_refine_factor bin_refine_factor;
          (lattice2, ngrid2_x, ngrid2_y, ngrid2_z) =
             (if autocorr = 0
              then gridlink_nopbc ND2 X2 Y2 Z2 xmin xmax ymin ymax zmin zmax rpmax
                     bin_refine_factor bin_refine_factor bin_refine_factor
              else (lattice1, nmesh_x, nmesh_y, nmesh_z))
      in if \<not> (nmesh_x = ngrid2_x \<and> nmesh_y = ngrid2_y \<and> nmesh_z = ngrid2_z) then None
         else
           let rupp_sqr = rupp_sqr_of nrpbin rupp;
               totncells = nmesh_x * nmesh_y * nmesh_z
           in case fold_opt
                     (cell_body (pair_kernel SQRT build nrpbin rupp_sqr) bin_refine_factor
                        nmesh_x nmesh_y nmesh_z lattice1 lattice2)
                     [0..totncells - 1]
                     \<lparr>npairs = replicate nrpbin 0, rpavg = replicate nrpbin 0\<rparr> of
                None \<Rightarrow> None
              | Some s \<Rightarrow> Some (report_bins nrpbin rupp paircounts s))"

text \<open>
  The build with \<^verbatim>\<open>USE_OMP\<close>. \<^verbatim>\<open>bin_refine_factor\<close> becomes 1 when \<^verbatim>\<open>numthreads > 1\<close>
  (lines 47--58). Each thread starts from zeroed counters of its own and runs the loop body
  on the cells the dynamic schedule hands it, in increasing order; \<open>owner icell\<close> is the
  thread that gets cell \<open>icell\<close>. The per-thread counters are then added up in the order of
  the thread numbers (lines 362--380).
\<close>

definition reduce_threads :: "nat \<Rightarrow> nat \<Rightarrow> counters list \<Rightarrow> counters" where
  "reduce_threads numthreads nrpbin all =
     \<lparr>npairs = fold (\<lambda>i np. fold (\<lambda>j np. np[j := np ! j + npairs (all ! i) ! j]) [0..<nrpbin] np)
                  [0..<numthreads] (replicate nrpbin 0),
      rpavg = fold (\<lambda>i rp. fold (\<lambda>j rp. rp[j := rp ! j + rpavg (all ! i) ! j]) [0..<nrpbin] rp)
                 [0..<numthreads] (replicate nrpbin 0)\<rparr>"

definition countpairs_nopbc_omp ::
  "(DOUBLE \<Rightarrow> DOUBLE) \<Rightarrow> kernel_build \<Rightarrow> (int \<Rightarrow> nat) \<Rightarrow> nat \<Rightarrow> DOUBLE list \<Rightarrow> DOUBLE list \<Rightarrow> DOUBLE list
     \<Rightarrow> nat \<Rightarrow> DOUBLE list \<Rightarrow> DOUBLE list \<Rightarrow> DOUBLE list
     \<Rightarrow> DOUBLE \<Rightarrow> DOUBLE \<Rightarrow> DOUBLE \<Rightarrow> DOUBLE \<Rightarrow> DOUBLE \<Rightarrow> DOUBLE
     \<Rightarrow> int \<Rightarrow> DOUBLE \<Rightarrow> int \<Rightarrow> nat \<Rightarrow> DOUBLE list \<Rightarrow> 32 word list \<Rightarrow> result option" where
  "countpairs_nopbc_omp SQRT build owner ND1 X1 Y1 Z1 ND2 X2 Y2 Z2 xmin xmax ymin ymax zmin zmax autocorr
       rpmax numthreads nrpbin rupp paircounts =
     (let bin_refine_factor = (if autocorr = 1 then 2 else 2);
          bin_refine_factor =
             (if numthreads > 1 then (if autocorr = 1 then 1 else 1) else bin_refine_factor);
          (lattice1, nmesh_x, nmesh_y, nmesh_z) =
             gridlink_nopbc ND1 X1 Y1 Z1 xmin xmax ymin ymax zmin zmax rpmax
               bin_refine_factor bin_refine_factor bin_refine_factor;
          (lattice2, ngrid2_x, ngrid2_y, ngrid2_z) =
             (if autocorr = 0
              then gridlink_nopbc ND2 X2 Y2 Z2 xmin xmax ymin ymax zmin zmax rpmax
                     bin_refine_factor bin_refine_factor bin_refine_factor
              else (lattice1, nmesh_x, nmesh_y, nmesh_z))
      in if \<not> (nmesh_x = ngrid2_x \<and> nmesh_y = ngrid2_y \<and> nmesh_z = ngrid2_z) then None
         else
           let rupp_sqr = rupp_sqr_of nrpbin rupp;
               totncells = nmesh_x * nmesh_y * nmesh_z;
               threads =
                 map (\<lambda>tid. fold_opt
                        (cell_body (pair_kernel SQRT build nrpbin rupp_sqr) bin_refine_factor
                           nmesh_x nmesh_y nmesh_z lattice1 lattice2)
                        (filter (\<lambda>icell. owner icell = tid) [0..totncells - 1])
                        \<lparr>npairs = replicate nrpbin 0, rpavg = replicate nrpbin 0\<rparr>)
                   [0..<nat numthreads]
           in if None \<in> set threads then None
              else Some (report_bins nrpbin rupp paircounts
                           (reduce_threads (nat numthreads) nrpbin (map the threads))))"

section \<open>The cells the driver pairs up\<close>

text \<open>
  The linear indices \<^verbatim>\<open>index2\<close> of the neighbour cells that the three offset loops of
  lines 146--165 reach from the cell with coordinates \<open>(ix, iy, iz)\<close>, in the order of the
  loops.
\<close>

definition nbr_cells :: "int \<Rightarrow> int \<Rightarrow> int \<Rightarrow> int \<Rightarrow> int \<Rightarrow> int \<Rightarrow> int \<Rightarrow> int list" where
  "nbr_cells bin_refine_factor nmesh_x nmesh_y nmesh_z ix iy iz =
     concat (map (\<lambda>iix.
         if iix + ix < 0 \<or> iix + ix \<ge> nmesh_x then []
         else concat (map (\<lambda>iiy.
             if iiy + iy < 0 \<or> iiy + iy \<ge> nmesh_y then []
             else concat (map (\<lambda>iiz.
                 if iiz + iz < 0 \<or> iiz + iz \<ge> nmesh_z then []
                 else [(iix + ix) * nmesh_y * nmesh_z + (iiy + iy) * nmesh_z + (iiz + iz)])
               [- bin_refine_factor..bin_refine_factor]))
           [- bin_refine_factor..bin_refine_factor]))
       [- bin_refine_factor..bin_refine_factor])"

text \<open>The pairs (outer cell, neighbour cell) of a run over the given outer cells.\<close>

definition cell_pairs :: "int \<Rightarrow> int \<Rightarrow> int \<Rightarrow> int \<Rightarrow> int list \<Rightarrow> (int \<times> int) list" where
  "cell_pairs bin_refine_factor nmesh_x nmesh_y nmesh_z cells =
     concat (map (\<lambda>icell.
         map (Pair icell)
           (nbr_cells bin_refine_factor nmesh_x nmesh_y nmesh_z
              (lattice_ix nmesh_y nmesh_z icell) (lattice_iy nmesh_y nmesh_z icell) (lattice_iz nmesh_z icell)))
       cells)"

section \<open>Counting index pairs\<close>

text \<open>The number of pairs \<open>(i, j)\<close> with \<open>i < n\<close>, \<open>j < m\<close> that satisfy \<open>P\<close>.\<close>

definition count_pairs :: "(nat \<Rightarrow> nat \<Rightarrow> bool) \<Rightarrow> nat \<Rightarrow> nat \<Rightarrow> nat" where
  "count_pairs P n m = length (filter (\<lambda>(i, j). P i j) (List.product [0..<n] [0..<m]))"

text \<open>
  Two points are in neighbouring cells for a refine factor when their cell coordinates
  differ by at most the factor along every axis.
\<close>

definition near_cells ::
  "int \<Rightarrow> DOUBLE \<Rightarrow> DOUBLE \<Rightarrow> DOUBLE \<Rightarrow> DOUBLE \<Rightarrow> DOUBLE \<Rightarrow> DOUBLE \<Rightarrow> DOUBLE
     \<Rightarrow> DOUBLE \<Rightarrow> DOUBLE \<Rightarrow> DOUBLE \<Rightarrow> DOUBLE \<Rightarrow> DOUBLE \<Rightarrow> DOUBLE \<Rightarrow> bool" where
  "near_cells bin_refine_factor xmin xmax ymin ymax zmin zmax rmax x1pos y1pos z1pos x2pos y2pos z2pos \<longleftrightarrow>
     \<bar>mesh_coord xmin xmax (mesh_size xmin xmax rmax bin_refine_factor) x1pos
        - mesh_coord xmin xmax (mesh_size xmin xmax rmax bin_refine_factor) x2pos\<bar> \<le> bin_refine_factor
     \<and> \<bar>mesh_coord ymin ymax (mesh_size ymin ymax rmax bin_refine_factor) y1pos
        - mesh_coord ymin ymax (mesh_size ymin ymax rmax bin_refine_factor) y2pos\<bar> \<le> bin_refine_factor
     \<and> \<bar>mesh_coord zmin zmax (mesh_size zmin zmax rmax bin_refine_factor) z1pos
        - mesh_coord zmin zmax (mesh_size zmin zmax rmax bin_refine_factor) z2pos\<bar> \<le> bin_refine_factor"

section \<open>The kernel as one pass over the squared distances\<close>

text \<open>
  The bin a squared distance is counted in: \<open>None\<close> when the range filter rejects it or
  the scan takes no \<^verbatim>\<open>break\<close>.
\<close>

definition bin_of :: "nat \<Rightarrow> DOUBLE list \<Rightarrow> DOUBLE \<Rightarrow> nat option" where
  "bin_of nrpbin rupp_sqr r2 =
     (if r2 \<ge> rupp_sqr ! (nrpbin - 1) \<or> r2 < rupp_sqr ! 0 then None
      else kbin_break rupp_sqr r2 (nrpbin - 1))"

definition bump :: "nat \<Rightarrow> DOUBLE \<Rightarrow> counters \<Rightarrow> counters" where
  "bump k r s = s\<lparr>npairs := (npairs s)[k := npairs s ! k + 1],
                  rpavg := (rpavg s)[k := rpavg s ! k + r]\<rparr>"

text \<open>The squared distances of the pairs of two cells, in the order the loops visit them.\<close>

definition cell_r2s :: "cellarray \<Rightarrow> cellarray \<Rightarrow> DOUBLE list" where
  "cell_r2s first second =
     concat (map (\<lambda>i. map (\<lambda>j. sqr_dist (x first ! i) (y first ! i) (z first ! i)
                                   (x second ! j) (y second ! j) (z second ! j))
                         [0..<nelements second])
                 [0..<nelements first])"

text \<open>What one pass leaves in the counters: the pairs counted in a bin and their distances.\<close>

definition count_bin :: "nat \<Rightarrow> DOUBLE list \<Rightarrow> nat \<Rightarrow> DOUBLE list \<Rightarrow> nat" where
  "count_bin nrpbin rupp_sqr k r2s = length (filter (\<lambda>r2. bin_of nrpbin rupp_sqr r2 = Some k) r2s)"

text \<open>1 when a squared distance is counted in bin \<open>k\<close>, 0 otherwise.\<close>

definition hit :: "nat \<Rightarrow> DOUBLE list \<Rightarrow> nat \<Rightarrow> DOUBLE \<Rightarrow> nat" where
  "hit nrpbin rupp_sqr k r2 = (if bin_of nrpbin rupp_sqr r2 = Some k then 1 else 0)"

definition dist_sum :: "(DOUBLE \<Rightarrow> DOUBLE) \<Rightarrow> nat \<Rightarrow> DOUBLE list \<Rightarrow> nat \<Rightarrow> DOUBLE list \<Rightarrow> DOUBLE" where
  "dist_sum SQRT nrpbin rupp_sqr k r2s =
     sum_list (map SQRT (filter (\<lambda>r2. bin_of nrpbin rupp_sqr r2 = Some k) r2s))"

text \<open>
  The number of index pairs \<open>(i, j)\<close> of two point sets whose points are in neighbouring
  cells for the refine factor and whose squared distance the kernel counts in bin \<open>k\<close>.
\<close>

definition pairs_in_bin ::
  "int \<Rightarrow> DOUBLE \<Rightarrow> DOUBLE \<Rightarrow> DOUBLE \<Rightarrow> DOUBLE \<Rightarrow> DOUBLE \<Rightarrow> DOUBLE \<Rightarrow> DOUBLE \<Rightarrow> nat \<Rightarrow> DOUBLE list
     \<Rightarrow> nat \<Rightarrow> DOUBLE list \<Rightarrow> DOUBLE list \<Rightarrow> DOUBLE list
     \<Rightarrow> nat \<Rightarrow> DOUBLE list \<Rightarrow> DOUBLE list \<Rightarrow> DOUBLE list \<Rightarrow> nat \<Rightarrow> nat" where
  "pairs_in_bin bin_refine_factor xmin xmax ymin ymax zmin zmax rmax nrpbin rupp
       ND1 X1 Y1 Z1 ND2 X2 Y2 Z2 k =
     count_pairs (\<lambda>i j.
         near_cells bin_refine_factor xmin xmax ymin ymax zmin zmax rmax
           (X1 ! i) (Y1 ! i) (Z1 ! i) (X2 ! j) (Y2 ! j) (Z2 ! j)
         \<and> bin_of nrpbin (rupp_sqr_of nrpbin rupp)
             (sqr_dist (X1 ! i) (Y1 ! i) (Z1 ! i) (X2 ! j) (Y2 ! j) (Z2 ! j)) = Some k)
       ND1 ND2"

text \<open>The squared distances in the lanes of one vector step.\<close>

definition lane_r2s :: "nat \<Rightarrow> DOUBLE \<Rightarrow> DOUBLE \<Rightarrow> DOUBLE \<Rightarrow> cellarray \<Rightarrow> nat \<Rightarrow> DOUBLE list" where
  "lane_r2s NVEC x1pos y1pos z1pos second j =
     map (\<lambda>l. sqr_dist x1pos y1pos z1pos (x second ! (j + l)) (y second ! (j + l)) (z second ! (j + l)))
       [0..<NVEC]"

section \<open>Bin edges\<close>

text \<open>
  The invariant of the bin edges in the data model of the specification: \<open>nrpbin\<close> edges,
  at least two, strictly increasing, the first not negative.
\<close>

definition bin_edges :: "nat \<Rightarrow> DOUBLE list \<Rightarrow> bool" where
  "bin_edges nrpbin rupp \<longleftrightarrow>
     length rupp = nrpbin \<and> 2 \<le> nrpbin \<and> 0 \<le> rupp ! 0 \<and> sorted_wrt (<) rupp"

text \<open>
  The pairs a run counts in bin \<open>k\<close>: with \<^verbatim>\<open>autocorr == 0\<close> the pairs of the first with the
  second point set, otherwise the pairs of the first point set with itself.
\<close>

definition pairs_counted ::
  "int \<Rightarrow> DOUBLE \<Rightarrow> DOUBLE \<Rightarrow> DOUBLE \<Rightarrow> DOUBLE \<Rightarrow> DOUBLE \<Rightarrow> DOUBLE \<Rightarrow> DOUBLE \<Rightarrow> nat \<Rightarrow> DOUBLE list
     \<Rightarrow> nat \<Rightarrow> DOUBLE list \<Rightarrow> DOUBLE list \<Rightarrow> DOUBLE list
     \<Rightarrow> nat \<Rightarrow> DOUBLE list \<Rightarrow> DOUBLE list \<Rightarrow> DOUBLE list \<Rightarrow> int \<Rightarrow> nat \<Rightarrow> nat" where
  "pairs_counted bin_refine_factor xmin xmax ymin ymax zmin zmax rmax nrpbin rupp
       ND1 X1 Y1 Z1 ND2 X2 Y2 Z2 autocorr k =
     (if autocorr = 0
      then pairs_in_bin bin_refine_factor xmin xmax ymin ymax zmin zmax rmax nrpbin rupp
             ND1 X1 Y1 Z1 ND2 X2 Y2 Z2 k
      else pairs_in_bin bin_refine_factor xmin xmax ymin ymax zmin zmax rmax nrpbin rupp
             ND1 X1 Y1 Z1 ND1 X1 Y1 Z1 k)"
section \<open>Properties of the scan\<close>

lemma kbin_loop_break:
  "kbin_loop rupp_sqr r2 r k s =
     (case kbin_break rupp_sqr r2 k of
        None \<Rightarrow> s
      | Some b \<Rightarrow> s\<lparr>npairs := (npairs s)[b := npairs s ! b + 1],
                    rpavg := (rpavg s)[b := rpavg s ! b + r]\<rparr>)"
  by (induction k) auto

lemma kbin_break_range:
  "kbin_break rupp_sqr r2 k = Some b \<Longrightarrow> 1 \<le> b \<and> b \<le> k \<and> rupp_sqr ! (b - 1) \<le> r2"
  by (induction k) (auto split: if_splits)

lemma kbin_break_above:
  "kbin_break rupp_sqr r2 k = Some b \<Longrightarrow> b \<le> j \<Longrightarrow> j < k \<Longrightarrow> r2 < rupp_sqr ! j"
  by (induction k) (auto split: if_splits simp: less_Suc_eq)

lemma kbin_break_Some:
  "rupp_sqr ! 0 \<le> r2 \<Longrightarrow> 0 < k \<Longrightarrow> \<exists>b. kbin_break rupp_sqr r2 k = Some b"
  by (induction k) auto


section \<open>The kernel as one pass over the squared distances\<close>

lemma bin_r2_bin_of:
  "bin_r2 SQRT nrpbin rupp_sqr r2 s =
     (case bin_of nrpbin rupp_sqr r2 of None \<Rightarrow> s | Some k \<Rightarrow> bump k (SQRT r2) s)"
  by (simp add: bin_r2_def bin_of_def bump_def kbin_loop_break Let_def split: option.splits)

lemma bin_of_range:
  assumes "bin_of nrpbin rupp_sqr r2 = Some k"
  shows "1 \<le> k" and "k < nrpbin" and "rupp_sqr ! (k - 1) \<le> r2" and "r2 < rupp_sqr ! k"
proof -
  from assms have hi: "r2 < rupp_sqr ! (nrpbin - 1)"
    and br: "kbin_break rupp_sqr r2 (nrpbin - 1) = Some k"
    by (auto simp: bin_of_def split: if_splits)
  from kbin_break_range [OF br] show "1 \<le> k" and lo: "rupp_sqr ! (k - 1) \<le> r2"
    by auto
  from kbin_break_range [OF br] have le: "k \<le> nrpbin - 1" by simp
  with \<open>1 \<le> k\<close> show "k < nrpbin" by simp
  show "r2 < rupp_sqr ! k"
  proof (cases "k = nrpbin - 1")
    case True
    with hi show ?thesis by simp
  next
    case False
    with le have "k < nrpbin - 1" by simp
    with kbin_break_above [OF br, of k] show ?thesis by simp
  qed
qed

lemma bin_of_Some:
  assumes "rupp_sqr ! 0 \<le> r2" and "r2 < rupp_sqr ! (nrpbin - 1)"
  shows "\<exists>k. bin_of nrpbin rupp_sqr r2 = Some k"
proof -
  from assms have "nrpbin - 1 \<noteq> 0" by (cases "nrpbin - 1") auto
  with kbin_break_Some [OF assms(1), of "nrpbin - 1"] assms show ?thesis
    by (simp add: bin_of_def)
qed

lemma bin_of_None:
  "r2 < rupp_sqr ! 0 \<or> rupp_sqr ! (nrpbin - 1) \<le> r2 \<Longrightarrow> bin_of nrpbin rupp_sqr r2 = None"
  by (auto simp: bin_of_def)

subsection \<open>The blocked \<^verbatim>\<open>j\<close> loop visits every \<^verbatim>\<open>j\<close> once, in order\<close>

lemma fold_shift:
  "fold (\<lambda>jj. f (j + jj)) [0..<n] s = fold f [j..<j + n] s"
proof -
  have "map (\<lambda>jj. j + jj) [0..<n] = [j..<j + n]"
    by (induction n) simp_all
  then have "fold f [j..<j + n] s = fold f (map (\<lambda>jj. j + jj) [0..<n]) s"
    by simp
  then show ?thesis
    by (simp add: fold_map comp_def)
qed

lemma scalar_j_loop_fold:
  "scalar_j_loop SQRT nrpbin rupp_sqr x1pos y1pos z1pos second j s =
     fold (scalar_pair SQRT nrpbin rupp_sqr x1pos y1pos z1pos second) [j..<nelements second] s"
proof (induction SQRT nrpbin rupp_sqr x1pos y1pos z1pos second j s rule: scalar_j_loop.induct)
  case (1 SQRT nrpbin rupp_sqr x1pos y1pos z1pos second j s)
  let ?n = "nelements second"
  let ?f = "scalar_pair SQRT nrpbin rupp_sqr x1pos y1pos z1pos second"
  show ?case
  proof (cases "j < ?n")
    case False
    then show ?thesis by (simp add: scalar_j_loop.simps)
  next
    case True
    define b where "b = (if ?n - j > BLOCK_SIZE then BLOCK_SIZE else ?n - j)"
    have step: "scalar_j_loop SQRT nrpbin rupp_sqr x1pos y1pos z1pos second j s =
        scalar_j_loop SQRT nrpbin rupp_sqr x1pos y1pos z1pos second (j + BLOCK_SIZE)
          (fold (\<lambda>jj. ?f (j + jj)) [0..<b] s)"
      using True by (subst scalar_j_loop.simps) (simp add: b_def Let_def)
    have ih: "scalar_j_loop SQRT nrpbin rupp_sqr x1pos y1pos z1pos second (j + BLOCK_SIZE)
          (fold (\<lambda>jj. ?f (j + jj)) [0..<b] s) =
        fold ?f [j + BLOCK_SIZE..<?n] (fold (\<lambda>jj. ?f (j + jj)) [0..<b] s)"
      using "1.IH" [OF True refl, of b] by (simp add: b_def)
    have split: "[j..<?n] = [j..<j + b] @ [j + BLOCK_SIZE..<?n]"
    proof (cases "?n - j > BLOCK_SIZE")
      case True
      then have "b = BLOCK_SIZE" by (simp add: b_def)
      moreover have "[j..<?n] = [j..<j + BLOCK_SIZE] @ [j + BLOCK_SIZE..<?n]"
        using True upt_add_eq_append [of j "j + BLOCK_SIZE" "?n - j - BLOCK_SIZE"] by simp
      ultimately show ?thesis by simp
    next
      case False
      then have "b = ?n - j" by (simp add: b_def)
      with False \<open>j < ?n\<close> show ?thesis by simp
    qed
    from step ih have "scalar_j_loop SQRT nrpbin rupp_sqr x1pos y1pos z1pos second j s =
        fold ?f [j + BLOCK_SIZE..<?n] (fold ?f [j..<j + b] s)"
      by (simp only: fold_shift)
    then show ?thesis
      by (simp only: split fold_append comp_apply)
  qed
qed

lemma scalar_kernel_fold:
  "scalar_kernel SQRT nrpbin rupp_sqr first second s =
     fold (bin_r2 SQRT nrpbin rupp_sqr) (cell_r2s first second) s"
proof -
  have inner: "scalar_j_loop SQRT nrpbin rupp_sqr a b c second 0 t =
      fold (bin_r2 SQRT nrpbin rupp_sqr)
        (map (\<lambda>j. sqr_dist a b c (x second ! j) (y second ! j) (z second ! j))
           [0..<nelements second]) t" for a b c t
  proof -
    have "scalar_pair SQRT nrpbin rupp_sqr a b c second =
        (\<lambda>j. bin_r2 SQRT nrpbin rupp_sqr (sqr_dist a b c (x second ! j) (y second ! j) (z second ! j)))"
      by (rule ext)+ (simp add: scalar_pair_def)
    then show ?thesis
      by (simp add: scalar_j_loop_fold fold_map comp_def)
  qed
  have "fold (\<lambda>i. scalar_j_loop SQRT nrpbin rupp_sqr (x first ! i) (y first ! i) (z first ! i) second 0) is s
      = fold (bin_r2 SQRT nrpbin rupp_sqr)
          (concat (map (\<lambda>i. map (\<lambda>j. sqr_dist (x first ! i) (y first ! i) (z first ! i)
                                        (x second ! j) (y second ! j) (z second ! j))
                              [0..<nelements second]) is)) s" for "is"
    by (induction "is" arbitrary: s) (simp_all add: inner)
  then show ?thesis
    by (simp add: scalar_kernel_def cell_r2s_def)
qed


subsection \<open>What one pass leaves in the counters\<close>

lemma count_bin_Nil [simp]: "count_bin nrpbin rupp_sqr k [] = 0"
  by (simp add: count_bin_def)

lemma count_bin_append [simp]:
  "count_bin nrpbin rupp_sqr k (as @ bs) = count_bin nrpbin rupp_sqr k as + count_bin nrpbin rupp_sqr k bs"
  by (simp add: count_bin_def)

lemma dist_sum_Nil [simp]: "dist_sum SQRT nrpbin rupp_sqr k [] = 0"
  by (simp add: dist_sum_def)

lemma dist_sum_append [simp]:
  "dist_sum SQRT nrpbin rupp_sqr k (as @ bs) = dist_sum SQRT nrpbin rupp_sqr k as + dist_sum SQRT nrpbin rupp_sqr k bs"
  by (simp add: dist_sum_def)

lemma length_bump [simp]:
  "length (npairs (bump k r s)) = length (npairs s)" "length (rpavg (bump k r s)) = length (rpavg s)"
  by (simp_all add: bump_def)

lemma length_bin_r2 [simp]:
  "length (npairs (bin_r2 SQRT nrpbin rupp_sqr r2 s)) = length (npairs s)"
  "length (rpavg (bin_r2 SQRT nrpbin rupp_sqr r2 s)) = length (rpavg s)"
  by (simp_all add: bin_r2_bin_of split: option.splits)

lemma length_fold_bin_r2 [simp]:
  "length (npairs (fold (bin_r2 SQRT nrpbin rupp_sqr) r2s s)) = length (npairs s)"
  "length (rpavg (fold (bin_r2 SQRT nrpbin rupp_sqr) r2s s)) = length (rpavg s)"
  by (induction r2s arbitrary: s) simp_all

lemma npairs_bin_r2:
  "k < length (npairs s) \<Longrightarrow>
   npairs (bin_r2 SQRT nrpbin rupp_sqr r2 s) ! k = npairs s ! k + of_nat (count_bin nrpbin rupp_sqr k [r2])"
  by (simp add: bin_r2_bin_of bump_def count_bin_def nth_list_update split: option.splits)

lemma rpavg_bin_r2:
  "k < length (rpavg s) \<Longrightarrow>
   rpavg (bin_r2 SQRT nrpbin rupp_sqr r2 s) ! k = rpavg s ! k + dist_sum SQRT nrpbin rupp_sqr k [r2]"
  by (simp add: bin_r2_bin_of bump_def dist_sum_def nth_list_update split: option.splits)

lemma npairs_fold_bin_r2:
  "k < length (npairs s) \<Longrightarrow>
   npairs (fold (bin_r2 SQRT nrpbin rupp_sqr) r2s s) ! k = npairs s ! k + of_nat (count_bin nrpbin rupp_sqr k r2s)"
proof (induction r2s arbitrary: s)
  case Nil
  then show ?case by simp
next
  case (Cons r2 r2s)
  have "count_bin nrpbin rupp_sqr k (r2 # r2s) =
      count_bin nrpbin rupp_sqr k [r2] + count_bin nrpbin rupp_sqr k r2s"
    using count_bin_append [of nrpbin rupp_sqr k "[r2]" r2s] by simp
  with Cons show ?case
    by (simp add: npairs_bin_r2)
qed

lemma rpavg_fold_bin_r2:
  "k < length (rpavg s) \<Longrightarrow>
   rpavg (fold (bin_r2 SQRT nrpbin rupp_sqr) r2s s) ! k = rpavg s ! k + dist_sum SQRT nrpbin rupp_sqr k r2s"
proof (induction r2s arbitrary: s)
  case Nil
  then show ?case by simp
next
  case (Cons r2 r2s)
  have "dist_sum SQRT nrpbin rupp_sqr k (r2 # r2s) =
      dist_sum SQRT nrpbin rupp_sqr k [r2] + dist_sum SQRT nrpbin rupp_sqr k r2s"
    using dist_sum_append [of SQRT nrpbin rupp_sqr k "[r2]" r2s] by simp
  with Cons show ?case
    by (simp add: rpavg_bin_r2)
qed

lemma count_bin_zero [simp]: "count_bin nrpbin rupp_sqr 0 r2s = 0"
proof -
  have "bin_of nrpbin rupp_sqr r2 \<noteq> Some 0" for r2
    using bin_of_range(1) [of nrpbin rupp_sqr r2 0] by auto
  then show ?thesis
    by (simp add: count_bin_def)
qed


lemma npairs_scalar_kernel_zero:
  "npairs (scalar_kernel SQRT nrpbin rupp_sqr first second s) ! 0 = npairs s ! 0"
proof (cases "npairs s")
  case Nil
  then have "length (npairs (scalar_kernel SQRT nrpbin rupp_sqr first second s)) = 0"
    by (simp add: scalar_kernel_fold)
  with Nil show ?thesis by simp
next
  case (Cons a as)
  then have "0 < length (npairs s)" by simp
  then show ?thesis
    by (simp add: scalar_kernel_fold npairs_fold_bin_r2)
qed

subsection \<open>Strictly increasing edges\<close>

lemma rupp_sqr_of_nth [simp]:
  "i < nrpbin \<Longrightarrow> rupp_sqr_of nrpbin rupp ! i = rupp ! i * rupp ! i"
  by (simp add: rupp_sqr_of_def)

lemma length_rupp_sqr_of [simp]: "length (rupp_sqr_of nrpbin rupp) = nrpbin"
  by (simp add: rupp_sqr_of_def)

lemma edges_nonneg:
  fixes rupp :: "DOUBLE list"
  assumes "sorted_wrt (<) rupp" and "0 \<le> rupp ! 0" and "i < length rupp"
  shows "0 \<le> rupp ! i"
proof (cases "i = 0")
  case True
  with assms show ?thesis by simp
next
  case False
  with assms have "rupp ! 0 < rupp ! i"
    by (simp add: sorted_wrt_nth_less)
  with assms show ?thesis by simp
qed

lemma sqr_edges_strict:
  fixes rupp :: "DOUBLE list"
  assumes "sorted_wrt (<) rupp" and "0 \<le> rupp ! 0" and "i < j" and "j < length rupp"
  shows "rupp ! i * rupp ! i < rupp ! j * rupp ! j"
proof -
  from assms have "rupp ! i < rupp ! j"
    by (simp add: sorted_wrt_nth_less)
  moreover have "0 \<le> rupp ! i"
    using edges_nonneg [OF assms(1,2), of i] assms by simp
  ultimately show ?thesis
    by (intro mult_strict_mono') simp_all
qed

lemma sqr_edges_mono:
  fixes rupp :: "DOUBLE list"
  assumes "sorted_wrt (<) rupp" and "0 \<le> rupp ! 0" and "i \<le> j" and "j < length rupp"
  shows "rupp ! i * rupp ! i \<le> rupp ! j * rupp ! j"
  using sqr_edges_strict [OF assms(1,2), of i j] assms(3,4)
  by (cases "i = j") simp_all

text \<open>With strictly increasing edges a squared distance lies in one bin at most.\<close>

lemma bin_unique:
  fixes rupp :: "DOUBLE list"
  assumes "sorted_wrt (<) rupp" and "0 \<le> rupp ! 0"
    and "k < length rupp" and "rupp ! (k - 1) * rupp ! (k - 1) \<le> r2" and "r2 < rupp ! k * rupp ! k"
    and "l < length rupp" and "rupp ! (l - 1) * rupp ! (l - 1) \<le> r2" and "r2 < rupp ! l * rupp ! l"
    and "1 \<le> k" and "1 \<le> l"
  shows "k = l"
proof (rule ccontr)
  assume "k \<noteq> l"
  then consider "k < l" | "l < k" by linarith
  then show False
  proof cases
    case 1
    with assms have "k \<le> l - 1" and "l - 1 < length rupp" by simp_all
    from sqr_edges_mono [OF assms(1,2) this]
    have "rupp ! k * rupp ! k \<le> rupp ! (l - 1) * rupp ! (l - 1)" .
    with assms show False by simp
  next
    case 2
    with assms have "l \<le> k - 1" and "k - 1 < length rupp" by simp_all
    from sqr_edges_mono [OF assms(1,2) this]
    have "rupp ! l * rupp ! l \<le> rupp ! (k - 1) * rupp ! (k - 1)" .
    with assms show False by simp
  qed
qed

lemma bin_of_sqr_iff:
  assumes "length rupp = nrpbin" and "sorted_wrt (<) rupp" and "0 \<le> rupp ! 0"
  shows "bin_of nrpbin (rupp_sqr_of nrpbin rupp) r2 = Some k \<longleftrightarrow>
    1 \<le> k \<and> k < nrpbin \<and> rupp ! (k - 1) * rupp ! (k - 1) \<le> r2 \<and> r2 < rupp ! k * rupp ! k"
proof
  assume "bin_of nrpbin (rupp_sqr_of nrpbin rupp) r2 = Some k"
  from bin_of_range [OF this] show
    "1 \<le> k \<and> k < nrpbin \<and> rupp ! (k - 1) * rupp ! (k - 1) \<le> r2 \<and> r2 < rupp ! k * rupp ! k"
    by simp
next
  assume r: "1 \<le> k \<and> k < nrpbin \<and> rupp ! (k - 1) * rupp ! (k - 1) \<le> r2 \<and> r2 < rupp ! k * rupp ! k"
  with assms have "0 \<le> k - 1" and "k - 1 < length rupp"
    and "k \<le> nrpbin - 1" and "nrpbin - 1 < length rupp" by auto
  from sqr_edges_mono [OF assms(2,3) this(1,2)] sqr_edges_mono [OF assms(2,3) this(3,4)]
  have "rupp ! 0 * rupp ! 0 \<le> rupp ! (k - 1) * rupp ! (k - 1)"
    and "rupp ! k * rupp ! k \<le> rupp ! (nrpbin - 1) * rupp ! (nrpbin - 1)" by simp_all
  then have "rupp_sqr_of nrpbin rupp ! 0 \<le> r2"
    and "r2 < rupp_sqr_of nrpbin rupp ! (nrpbin - 1)"
    using r by simp_all
  from bin_of_Some [OF this] obtain l where l: "bin_of nrpbin (rupp_sqr_of nrpbin rupp) r2 = Some l"
    by blast
  from bin_of_range [OF l] have "1 \<le> l" "l < nrpbin"
    "rupp ! (l - 1) * rupp ! (l - 1) \<le> r2" "r2 < rupp ! l * rupp ! l"
    by simp_all
  with r assms have "k = l"
    using bin_unique [of rupp k r2 l] by simp
  with l show "bin_of nrpbin (rupp_sqr_of nrpbin rupp) r2 = Some k" by simp
qed

subsection \<open>The kernel runs the loop body on every index pair\<close>

lemma fold_product:
  "fold (\<lambda>(i, j). f i j) (List.product as bs) s = fold (\<lambda>i. fold (f i) bs) as s"
  by (induction as arbitrary: s) (simp_all add: fold_map comp_def)

lemma scalar_kernel_product:
  "scalar_kernel SQRT nrpbin rupp_sqr first second s =
     fold (\<lambda>(i, j). scalar_pair SQRT nrpbin rupp_sqr (x first ! i) (y first ! i) (z first ! i) second j)
       (List.product [0..<nelements first] [0..<nelements second]) s"
proof -
  have "scalar_j_loop SQRT nrpbin rupp_sqr a b c second 0 =
      fold (scalar_pair SQRT nrpbin rupp_sqr a b c second) [0..<nelements second]" for a b c
    by (rule ext) (simp add: scalar_j_loop_fold)
  then show ?thesis
    by (simp add: scalar_kernel_def fold_product)
qed

lemma sqr_dist_self [simp]: "sqr_dist a b c a b c = 0"
  by (simp add: sqr_dist_def)

lemma sdiv_nonneg:
  fixes a b :: int
  shows "0 \<le> a \<Longrightarrow> 0 < b \<Longrightarrow> a sdiv b = a div b"
  by (cases "a = 0") (simp_all add: signed_divide_int_def)

lemma smod_nonneg:
  fixes a b :: int
  shows "0 \<le> a \<Longrightarrow> 0 < b \<Longrightarrow> a smod b = a mod b"
  by (cases "a = 0") (simp_all add: signed_modulo_int_def)

lemma int_div_less:
  fixes a b c :: int
  assumes "0 < c" and "a < b * c"
  shows "a div c < b"
proof (rule ccontr)
  assume "\<not> a div c < b"
  then have "b \<le> a div c" by simp
  then have "b * c \<le> a div c * c"
    using assms(1) by (simp add: mult_right_mono)
  also have "\<dots> \<le> a"
    using assms(1) pos_mod_sign [of c a] div_mult_mod_eq [of a c] by linarith
  finally show False
    using assms(2) by simp
qed

lemma cell_decode:
  assumes "0 < nmesh_y" and "0 < nmesh_z" and "0 \<le> icell"
  shows "lattice_iz nmesh_z icell = icell mod nmesh_z"
    and "lattice_ix nmesh_y nmesh_z icell = icell div (nmesh_z * nmesh_y)"
    and "lattice_iy nmesh_y nmesh_z icell = (icell mod (nmesh_z * nmesh_y)) div nmesh_z"
proof -
  from assms have pos: "0 < nmesh_z * nmesh_y" by simp
  show iz: "lattice_iz nmesh_z icell = icell mod nmesh_z"
    using assms by (simp add: lattice_iz_def smod_nonneg)
  show ix: "lattice_ix nmesh_y nmesh_z icell = icell div (nmesh_z * nmesh_y)"
    using assms pos by (simp add: lattice_ix_def sdiv_nonneg)
  have rem: "icell - icell div (nmesh_z * nmesh_y) * nmesh_z * nmesh_y = icell mod (nmesh_z * nmesh_y)"
    by (simp add: minus_div_mult_eq_mod mult.assoc)
  have "(icell mod (nmesh_z * nmesh_y)) mod nmesh_z = icell mod nmesh_z"
    by (simp add: mod_mod_cancel)
  then have split: "icell mod (nmesh_z * nmesh_y) - icell mod nmesh_z =
      (icell mod (nmesh_z * nmesh_y)) div nmesh_z * nmesh_z"
    by (metis minus_mod_eq_div_mult)
  have nonneg: "0 \<le> (icell mod (nmesh_z * nmesh_y)) div nmesh_z * nmesh_z"
    using assms pos by (simp add: pos_imp_zdiv_nonneg_iff)
  have "icell - icell mod nmesh_z - icell div (nmesh_z * nmesh_y) * nmesh_z * nmesh_y =
      icell mod (nmesh_z * nmesh_y) - icell mod nmesh_z"
    using rem by linarith
  then have "lattice_iy nmesh_y nmesh_z icell =
      (icell mod (nmesh_z * nmesh_y) - icell mod nmesh_z) sdiv nmesh_z"
    by (simp only: lattice_iy_def iz ix)
  also have "\<dots> = ((icell mod (nmesh_z * nmesh_y)) div nmesh_z * nmesh_z) div nmesh_z"
    using nonneg assms by (simp only: split sdiv_nonneg)
  also have "\<dots> = (icell mod (nmesh_z * nmesh_y)) div nmesh_z"
    using assms by simp
  finally show "lattice_iy nmesh_y nmesh_z icell = (icell mod (nmesh_z * nmesh_y)) div nmesh_z" .
qed

section \<open>The driver's loops\<close>

subsection \<open>No \<^verbatim>\<open>assert\<close> fails\<close>

lemma fold_opt_Some:
  assumes "\<And>a s. a \<in> set as \<Longrightarrow> f a s = Some (fold h (g a) s)"
  shows "fold_opt f as s = Some (fold h (concat (map g as)) s)"
  using assms by (induction as arbitrary: s) simp_all

lemma cell_body_Some:
  assumes "0 < nmesh_y" and "0 < nmesh_z" and "0 \<le> icell"
  shows "cell_body kern bf nmesh_x nmesh_y nmesh_z lattice1 lattice2 icell s =
    Some (fold (\<lambda>index2. kern (lattice1 ! nat icell) (lattice2 ! nat index2))
            (nbr_cells bf nmesh_x nmesh_y nmesh_z
               (lattice_ix nmesh_y nmesh_z icell) (lattice_iy nmesh_y nmesh_z icell) (lattice_iz nmesh_z icell)) s)"
proof -
  let ?h = "\<lambda>index2. kern (lattice1 ! nat icell) (lattice2 ! nat index2)"
  let ?ix = "lattice_ix nmesh_y nmesh_z icell"
  let ?iy = "lattice_iy nmesh_y nmesh_z icell"
  let ?iz = "lattice_iz nmesh_z icell"
  note d = cell_decode [OF assms]
  let ?m = "icell mod (nmesh_z * nmesh_y)"
  have "?m mod nmesh_z = icell mod nmesh_z"
    by (simp add: mod_mod_cancel)
  then have "icell mod nmesh_z + nmesh_z * (?m div nmesh_z) = ?m"
    by (metis mod_mult_div_eq)
  moreover have "?m + nmesh_z * nmesh_y * (icell div (nmesh_z * nmesh_y)) = icell"
    by simp
  ultimately have a: "lattice_assert nmesh_y nmesh_z icell"
    by (simp add: lattice_assert_def d)
  let ?zbody = "\<lambda>iiix iiiy iiz s.
       if iiz + ?iz < 0 \<or> iiz + ?iz \<ge> nmesh_z then Some s
       else if \<not> (iiix \<ge> 0 \<and> iiix < nmesh_x \<and> iiiy \<ge> 0 \<and> iiiy < nmesh_y
                  \<and> iiz + ?iz \<ge> 0 \<and> iiz + ?iz < nmesh_z) then None
       else Some (kern (lattice1 ! nat icell)
                   (lattice2 ! nat (iiix * nmesh_y * nmesh_z + iiiy * nmesh_z + (iiz + ?iz))) s)"
  let ?zcells = "\<lambda>iiix iiiy. concat (map (\<lambda>iiz.
       if iiz + ?iz < 0 \<or> iiz + ?iz \<ge> nmesh_z then []
       else [iiix * nmesh_y * nmesh_z + iiiy * nmesh_z + (iiz + ?iz)]) [- bf..bf])"
  have zl: "fold_opt (?zbody iiix iiiy) [- bf..bf] t = Some (fold ?h (?zcells iiix iiiy) t)"
    if "\<not> (iiix < 0 \<or> iiix \<ge> nmesh_x)" and "\<not> (iiiy < 0 \<or> iiiy \<ge> nmesh_y)" for iiix iiiy t
    using that by (intro fold_opt_Some) auto
  let ?ybody = "\<lambda>iiix iiy s.
       if iiy + ?iy < 0 \<or> iiy + ?iy \<ge> nmesh_y then Some s
       else fold_opt (?zbody iiix (iiy + ?iy)) [- bf..bf] s"
  let ?ycells = "\<lambda>iiix. concat (map (\<lambda>iiy.
       if iiy + ?iy < 0 \<or> iiy + ?iy \<ge> nmesh_y then [] else ?zcells iiix (iiy + ?iy)) [- bf..bf])"
  have yl: "fold_opt (?ybody iiix) [- bf..bf] t = Some (fold ?h (?ycells iiix) t)"
    if "\<not> (iiix < 0 \<or> iiix \<ge> nmesh_x)" for iiix t
  proof (intro fold_opt_Some)
    fix a s
    show "?ybody iiix a s = Some (fold ?h
        (if a + ?iy < 0 \<or> a + ?iy \<ge> nmesh_y then [] else ?zcells iiix (a + ?iy)) s)"
      using zl [OF that, of "a + ?iy" s] by simp
  qed
  let ?xbody = "\<lambda>iix s.
       if iix + ?ix < 0 \<or> iix + ?ix \<ge> nmesh_x then Some s
       else fold_opt (?ybody (iix + ?ix)) [- bf..bf] s"
  have xl: "fold_opt ?xbody [- bf..bf] t =
      Some (fold ?h (nbr_cells bf nmesh_x nmesh_y nmesh_z ?ix ?iy ?iz) t)" for t
    unfolding nbr_cells_def
  proof (intro fold_opt_Some)
    fix a s
    show "?xbody a s = Some (fold ?h
        (if a + ?ix < 0 \<or> a + ?ix \<ge> nmesh_x then [] else ?ycells (a + ?ix)) s)"
      using yl [of "a + ?ix" s] by simp
  qed
  have "cell_body kern bf nmesh_x nmesh_y nmesh_z lattice1 lattice2 icell s =
      fold_opt ?xbody [- bf..bf] s"
    unfolding cell_body_def Let_def using a by simp
  then show ?thesis
    by (simp only: xl)
qed

lemma cells_Some:
  assumes "0 < nmesh_y" and "0 < nmesh_z" and "\<forall>icell \<in> set cells. 0 \<le> icell"
  shows "fold_opt (cell_body kern bf nmesh_x nmesh_y nmesh_z lattice1 lattice2) cells s =
    Some (fold (\<lambda>(icell, index2). kern (lattice1 ! nat icell) (lattice2 ! nat index2))
            (cell_pairs bf nmesh_x nmesh_y nmesh_z cells) s)"
proof -
  have "fold_opt (cell_body kern bf nmesh_x nmesh_y nmesh_z lattice1 lattice2) cells s =
      Some (fold (\<lambda>(icell, index2). kern (lattice1 ! nat icell) (lattice2 ! nat index2))
        (concat (map (\<lambda>icell. map (Pair icell)
           (nbr_cells bf nmesh_x nmesh_y nmesh_z
              (lattice_ix nmesh_y nmesh_z icell) (lattice_iy nmesh_y nmesh_z icell) (lattice_iz nmesh_z icell)))
         cells)) s)"
    using assms by (intro fold_opt_Some) (simp add: cell_body_Some fold_map comp_def)
  then show ?thesis
    by (simp add: cell_pairs_def)
qed

subsection \<open>Encoding and decoding of cell coordinates\<close>

lemma encode_bounds:
  fixes a b c nx ny nz :: int
  assumes "0 \<le> a" and "a < nx" and "0 \<le> b" and "b < ny" and "0 \<le> c" and "c < nz"
  shows "0 \<le> b * nz + c" and "b * nz + c < nz * ny"
    and "0 \<le> a * ny * nz + b * nz + c" and "a * ny * nz + b * nz + c < nx * ny * nz"
proof -
  from assms have nz: "0 < nz" and ny: "0 < ny" by simp_all
  show r0: "0 \<le> b * nz + c"
    using assms nz by simp
  have "b * nz \<le> (ny - 1) * nz"
    using assms nz by (intro mult_right_mono) simp_all
  then show r1: "b * nz + c < nz * ny"
    using assms by (simp add: algebra_simps)
  have "0 \<le> a * (ny * nz)"
    using assms ny nz by simp
  with r0 show "0 \<le> a * ny * nz + b * nz + c"
    by (simp add: mult.assoc)
  have "a * (ny * nz) \<le> (nx - 1) * (ny * nz)"
    using assms ny nz by (intro mult_right_mono) simp_all
  with r1 show "a * ny * nz + b * nz + c < nx * ny * nz"
    by (simp add: algebra_simps)
qed

lemma decode_encode:
  fixes a b c ny nz :: int
  assumes "0 \<le> a" and "0 \<le> b" and "b < ny" and "0 \<le> c" and "c < nz"
  shows "lattice_ix ny nz (a * ny * nz + b * nz + c) = a"
    and "lattice_iy ny nz (a * ny * nz + b * nz + c) = b"
    and "lattice_iz nz (a * ny * nz + b * nz + c) = c"
proof -
  let ?e = "a * ny * nz + b * nz + c"
  from assms have nz: "0 < nz" and ny: "0 < ny" by simp_all
  from assms have a1: "a < a + 1" by simp
  note bnd = encode_bounds [OF assms(1) a1 assms(2-5)]
  have e: "?e = nz * ny * a + (b * nz + c)"
    by (simp add: algebra_simps)
  have dx: "?e div (nz * ny) = a"
    using e bnd(1,2) by (rule int_div_pos_eq)
  have mx: "?e mod (nz * ny) = b * nz + c"
    using e bnd(1,2) by (rule int_mod_pos_eq)
  have "b * nz + c = nz * b + c" by simp
  then have dy: "(b * nz + c) div nz = b"
    using assms(4,5) by (rule int_div_pos_eq)
  have "?e = nz * (a * ny + b) + c"
    by (simp add: algebra_simps)
  then have mz: "?e mod nz = c"
    using assms(4,5) by (rule int_mod_pos_eq)
  note d = cell_decode [OF ny nz bnd(3)]
  show "lattice_ix ny nz ?e = a" by (simp only: d dx)
  show "lattice_iy ny nz ?e = b" by (simp only: d mx dy)
  show "lattice_iz nz ?e = c" by (simp only: d mz)
qed

lemma encode_inj:
  fixes a b c a' b' c' ny nz :: int
  assumes "0 \<le> a" and "0 \<le> b" and "b < ny" and "0 \<le> c" and "c < nz"
    and "0 \<le> a'" and "0 \<le> b'" and "b' < ny" and "0 \<le> c'" and "c' < nz"
  shows "a * ny * nz + b * nz + c = a' * ny * nz + b' * nz + c' \<longleftrightarrow> a = a' \<and> b = b' \<and> c = c'"
proof
  assume eq: "a * ny * nz + b * nz + c = a' * ny * nz + b' * nz + c'"
  from decode_encode [OF assms(1-5)] decode_encode [OF assms(6-10)]
  show "a = a' \<and> b = b' \<and> c = c'"
    unfolding eq by simp
qed simp

lemma mesh_size_pos [simp]: "0 < mesh_size lo hi rmax bf"
  by (simp add: mesh_size_def)

lemma mesh_coord_bounds:
  assumes "0 < n"
  shows "0 \<le> mesh_coord lo hi n p" and "mesh_coord lo hi n p < n"
  using assms by (simp_all add: mesh_coord_def Let_def)

subsection \<open>Each neighbouring cell is visited once\<close>

lemma sum_delta_offset:
  fixes c c' bf :: int
  shows "(\<Sum>t\<in>{- bf..bf}. if P \<and> t + c = c' then 1 else 0) =
    (if P \<and> \<bar>c - c'\<bar> \<le> bf then 1 else (0::nat))"
proof (cases P)
  case False
  then show ?thesis by simp
next
  case True
  have "(\<Sum>t\<in>{- bf..bf}. if t + c = c' then 1 else 0) =
      (\<Sum>t\<in>{- bf..bf}. if t = c' - c then 1 else (0::nat))"
    by (intro sum.cong) auto
  also have "\<dots> = (if c' - c \<in> {- bf..bf} then 1 else 0)"
    by (simp add: sum.delta)
  also have "\<dots> = (if \<bar>c - c'\<bar> \<le> bf then 1 else 0)"
    by auto
  finally show ?thesis
    using True by simp
qed

lemma count_list_concat_offsets:
  fixes c c' bf :: int
  assumes "\<And>t. count_list (F t) q = (if P \<and> t + c = c' then 1 else 0)"
  shows "count_list (concat (map F [- bf..bf])) q = (if P \<and> \<bar>c - c'\<bar> \<le> bf then 1 else 0)"
proof -
  have "count_list (concat (map F [- bf..bf])) q = (\<Sum>t\<in>{- bf..bf}. count_list (F t) q)"
    by (simp add: count_list_concat comp_def interv_sum_list_conv_sum_set_int)
  also have "\<dots> = (\<Sum>t\<in>{- bf..bf}. if P \<and> t + c = c' then 1 else 0)"
    by (simp only: assms)
  also have "\<dots> = (if P \<and> \<bar>c - c'\<bar> \<le> bf then 1 else 0)"
    by (rule sum_delta_offset)
  finally show ?thesis .
qed

lemma count_list_nbr_cells:
  assumes a: "0 \<le> a" "a < nx" and b: "0 \<le> b" "b < ny" and c: "0 \<le> c" "c < nz"
    and a': "0 \<le> a'" "a' < nx" and b': "0 \<le> b'" "b' < ny" and c': "0 \<le> c'" "c' < nz"
  shows "count_list (nbr_cells bf nx ny nz a b c) (a' * ny * nz + b' * nz + c') =
    (if \<bar>a - a'\<bar> \<le> bf \<and> \<bar>b - b'\<bar> \<le> bf \<and> \<bar>c - c'\<bar> \<le> bf then 1 else 0)"
proof -
  let ?q = "a' * ny * nz + b' * nz + c'"
  have zs: "count_list (concat (map (\<lambda>iiz.
           if iiz + c < 0 \<or> iiz + c \<ge> nz then []
           else [u * ny * nz + v * nz + (iiz + c)]) [- bf..bf])) ?q =
       (if (u = a' \<and> v = b') \<and> \<bar>c - c'\<bar> \<le> bf then 1 else 0)"
    if "0 \<le> u" and "0 \<le> v" "v < ny" for u v
  proof (rule count_list_concat_offsets)
    fix t
    show "count_list (if t + c < 0 \<or> t + c \<ge> nz then [] else [u * ny * nz + v * nz + (t + c)]) ?q =
        (if (u = a' \<and> v = b') \<and> t + c = c' then 1 else 0)"
      using encode_inj [OF that, of "t + c" nz a' b' c'] a' b' c' by auto
  qed
  have ys: "count_list (concat (map (\<lambda>iiy.
           if iiy + b < 0 \<or> iiy + b \<ge> ny then []
           else concat (map (\<lambda>iiz.
               if iiz + c < 0 \<or> iiz + c \<ge> nz then []
               else [u * ny * nz + (iiy + b) * nz + (iiz + c)]) [- bf..bf])) [- bf..bf])) ?q =
       (if (u = a' \<and> \<bar>c - c'\<bar> \<le> bf) \<and> \<bar>b - b'\<bar> \<le> bf then 1 else 0)"
    if "0 \<le> u" for u
  proof (rule count_list_concat_offsets)
    fix t
    show "count_list (if t + b < 0 \<or> t + b \<ge> ny then []
           else concat (map (\<lambda>iiz.
               if iiz + c < 0 \<or> iiz + c \<ge> nz then []
               else [u * ny * nz + (t + b) * nz + (iiz + c)]) [- bf..bf])) ?q =
        (if (u = a' \<and> \<bar>c - c'\<bar> \<le> bf) \<and> t + b = b' then 1 else 0)"
      using zs [OF that, of "t + b"] b' by auto
  qed
  have "count_list (nbr_cells bf nx ny nz a b c) ?q =
      (if (\<bar>b - b'\<bar> \<le> bf \<and> \<bar>c - c'\<bar> \<le> bf) \<and> \<bar>a - a'\<bar> \<le> bf then 1 else 0)"
    unfolding nbr_cells_def
  proof (rule count_list_concat_offsets)
    fix t
    show "count_list (if t + a < 0 \<or> t + a \<ge> nx then []
         else concat (map (\<lambda>iiy.
           if iiy + b < 0 \<or> iiy + b \<ge> ny then []
           else concat (map (\<lambda>iiz.
               if iiz + c < 0 \<or> iiz + c \<ge> nz then []
               else [(t + a) * ny * nz + (iiy + b) * nz + (iiz + c)]) [- bf..bf])) [- bf..bf])) ?q =
      (if (\<bar>b - b'\<bar> \<le> bf \<and> \<bar>c - c'\<bar> \<le> bf) \<and> t + a = a' then 1 else 0)"
      using ys [of "t + a"] a' by auto
  qed
  then show ?thesis by auto
qed

lemma count_list_map_Pair:
  "count_list (map (Pair u) vs) (e, e') = (if u = e then count_list vs e' else 0)"
  by (induction vs) auto

lemma sum_list_delta:
  "sum_list (map (\<lambda>u. if u = e then k u else 0) us) = count_list us e * (k e :: nat)"
  by (induction us) (auto simp: algebra_simps)

lemma count_list_cell_pairs:
  assumes a: "0 \<le> a" "a < nx" and b: "0 \<le> b" "b < ny" and c: "0 \<le> c" "c < nz"
    and a': "0 \<le> a'" "a' < nx" and b': "0 \<le> b'" "b' < ny" and c': "0 \<le> c'" "c' < nz"
  shows "count_list (cell_pairs bf nx ny nz cells) (a * ny * nz + b * nz + c, a' * ny * nz + b' * nz + c') =
    count_list cells (a * ny * nz + b * nz + c) *
      (if \<bar>a - a'\<bar> \<le> bf \<and> \<bar>b - b'\<bar> \<le> bf \<and> \<bar>c - c'\<bar> \<le> bf then 1 else 0)"
proof -
  let ?e = "a * ny * nz + b * nz + c" and ?e' = "a' * ny * nz + b' * nz + c'"
  let ?nb = "\<lambda>icell. nbr_cells bf nx ny nz (lattice_ix ny nz icell) (lattice_iy ny nz icell) (lattice_iz nz icell)"
  have "count_list (cell_pairs bf nx ny nz cells) (?e, ?e') =
      sum_list (map (\<lambda>icell. if icell = ?e then count_list (?nb icell) ?e' else 0) cells)"
    by (simp add: cell_pairs_def count_list_concat comp_def count_list_map_Pair)
  also have "\<dots> = count_list cells ?e * count_list (?nb ?e) ?e'"
    by (rule sum_list_delta)
  also have "?nb ?e = nbr_cells bf nx ny nz a b c"
    using decode_encode [OF a(1) b c] by simp
  finally show ?thesis
    by (simp only: count_list_nbr_cells [OF assms])
qed

subsection \<open>The pairs of two lattice cells\<close>

lemma count_bin_sum: "count_bin nrpbin rupp_sqr k r2s = sum_list (map (hit nrpbin rupp_sqr k) r2s)"
  by (induction r2s) (simp_all add: count_bin_def hit_def)

lemma cell_r2s_lattice:
  "cell_r2s (lattice_cell np1 X1 Y1 Z1 idx1 c) (lattice_cell np2 X2 Y2 Z2 idx2 c') =
     concat (map (\<lambda>i. map (\<lambda>j. sqr_dist (X1 ! i) (Y1 ! i) (Z1 ! i) (X2 ! j) (Y2 ! j) (Z2 ! j))
                         (filter (\<lambda>j. idx2 j = c') [0..<np2]))
                 (filter (\<lambda>i. idx1 i = c) [0..<np1]))"
proof -
  let ?m1 = "filter (\<lambda>i. idx1 i = c) [0..<np1]" and ?m2 = "filter (\<lambda>j. idx2 j = c') [0..<np2]"
  have inner: "map (\<lambda>b. sqr_dist u v w (map ((!) X2) ?m2 ! b) (map ((!) Y2) ?m2 ! b) (map ((!) Z2) ?m2 ! b))
        [0..<length ?m2] =
      map (\<lambda>j. sqr_dist u v w (X2 ! j) (Y2 ! j) (Z2 ! j)) ?m2" for u v w
    by (rule nth_equalityI) simp_all
  have outer: "map (\<lambda>a. map (\<lambda>j. sqr_dist (map ((!) X1) ?m1 ! a) (map ((!) Y1) ?m1 ! a)
          (map ((!) Z1) ?m1 ! a) (X2 ! j) (Y2 ! j) (Z2 ! j)) ?m2) [0..<length ?m1] =
      map (\<lambda>i. map (\<lambda>j. sqr_dist (X1 ! i) (Y1 ! i) (Z1 ! i) (X2 ! j) (Y2 ! j) (Z2 ! j)) ?m2) ?m1"
    by (rule nth_equalityI) simp_all
  have "cell_r2s (lattice_cell np1 X1 Y1 Z1 idx1 c) (lattice_cell np2 X2 Y2 Z2 idx2 c') =
      concat (map (\<lambda>a. map (\<lambda>j. sqr_dist (map ((!) X1) ?m1 ! a) (map ((!) Y1) ?m1 ! a)
          (map ((!) Z1) ?m1 ! a) (X2 ! j) (Y2 ! j) (Z2 ! j)) ?m2) [0..<length ?m1])"
    by (simp add: cell_r2s_def lattice_cell_def Let_def inner)
  then show ?thesis
    by (simp only: outer)
qed

lemma sum_list_concat_map:
  fixes f :: "'a \<Rightarrow> nat"
  shows "sum_list (map f (concat xss)) = sum_list (map (\<lambda>xs. sum_list (map f xs)) xss)"
  by (induction xss) simp_all

lemma count_bin_lattice:
  "count_bin nrpbin rupp_sqr k
     (cell_r2s (lattice_cell np1 X1 Y1 Z1 idx1 c) (lattice_cell np2 X2 Y2 Z2 idx2 c')) =
   (\<Sum>i<np1. \<Sum>j<np2.
      if (idx1 i, idx2 j) = (c, c') then
        hit nrpbin rupp_sqr k (sqr_dist (X1 ! i) (Y1 ! i) (Z1 ! i) (X2 ! j) (Y2 ! j) (Z2 ! j))
      else 0)"
proof -
  let ?d = "\<lambda>i j. sqr_dist (X1 ! i) (Y1 ! i) (Z1 ! i) (X2 ! j) (Y2 ! j) (Z2 ! j)"
  have "count_bin nrpbin rupp_sqr k
      (cell_r2s (lattice_cell np1 X1 Y1 Z1 idx1 c) (lattice_cell np2 X2 Y2 Z2 idx2 c')) =
    sum_list (map (\<lambda>i. sum_list (map (\<lambda>j. hit nrpbin rupp_sqr k (?d i j))
        (filter (\<lambda>j. idx2 j = c') [0..<np2]))) (filter (\<lambda>i. idx1 i = c) [0..<np1]))"
    by (simp add: cell_r2s_lattice count_bin_sum sum_list_concat_map comp_def)
  also have "\<dots> = (\<Sum>i<np1. if idx1 i = c then
      (\<Sum>j<np2. if idx2 j = c' then hit nrpbin rupp_sqr k (?d i j) else 0) else 0)"
    by (simp add: sum_list_map_filter' interv_sum_list_conv_sum_set_nat atLeast0LessThan)
  also have "\<dots> = (\<Sum>i<np1. \<Sum>j<np2.
      if (idx1 i, idx2 j) = (c, c') then hit nrpbin rupp_sqr k (?d i j) else 0)"
    by (intro sum.cong refl) simp
  finally show ?thesis .
qed

lemma sum_list_cell_counts:
  fixes g :: "nat \<Rightarrow> nat \<Rightarrow> nat"
  shows "sum_list (map (\<lambda>(c, c'). \<Sum>i<np1. \<Sum>j<np2. if (idx1 i, idx2 j) = (c, c') then g i j else 0) ps) =
    (\<Sum>i<np1. \<Sum>j<np2. count_list ps (idx1 i, idx2 j) * g i j)"
proof (induction ps)
  case Nil
  then show ?case by simp
next
  case (Cons p ps)
  obtain c c' where p: "p = (c, c')" by (cases p)
  have "(\<Sum>i<np1. \<Sum>j<np2. count_list (p # ps) (idx1 i, idx2 j) * g i j) =
      (\<Sum>i<np1. \<Sum>j<np2. (if (idx1 i, idx2 j) = (c, c') then g i j else 0)
         + count_list ps (idx1 i, idx2 j) * g i j)"
    by (intro sum.cong refl) (auto simp: p)
  also have "\<dots> = (\<Sum>i<np1. \<Sum>j<np2. if (idx1 i, idx2 j) = (c, c') then g i j else 0)
      + (\<Sum>i<np1. \<Sum>j<np2. count_list ps (idx1 i, idx2 j) * g i j)"
    by (simp add: sum.distrib)
  finally show ?case
    using Cons by (simp add: p)
qed

subsection \<open>A run over a list of outer cells\<close>

lemma fold_kernel_cells:
  fixes kern :: "cellarray \<Rightarrow> cellarray \<Rightarrow> counters \<Rightarrow> counters"
  assumes len: "\<And>first second s. length (npairs (kern first second s)) = length (npairs s)"
    and cnt: "\<And>first second s. k < length (npairs s) \<Longrightarrow>
        npairs (kern first second s) ! k =
          npairs s ! k + of_nat (count_bin nrpbin rupp_sqr k (cell_r2s first second))"
  shows "length (npairs (fold (\<lambda>(c, c'). kern (l1 ! nat c) (l2 ! nat c')) ps s)) = length (npairs s)"
    and "k < length (npairs s) \<Longrightarrow>
      npairs (fold (\<lambda>(c, c'). kern (l1 ! nat c) (l2 ! nat c')) ps s) ! k =
        npairs s ! k + of_nat (sum_list (map (\<lambda>(c, c').
            count_bin nrpbin rupp_sqr k (cell_r2s (l1 ! nat c) (l2 ! nat c'))) ps))"
proof -
  show l: "length (npairs (fold (\<lambda>(c, c'). kern (l1 ! nat c) (l2 ! nat c')) ps s)) = length (npairs s)"
    for s
    by (induction ps arbitrary: s) (simp_all add: len split: prod.splits)
  show "k < length (npairs s) \<Longrightarrow>
      npairs (fold (\<lambda>(c, c'). kern (l1 ! nat c) (l2 ! nat c')) ps s) ! k =
        npairs s ! k + of_nat (sum_list (map (\<lambda>(c, c').
            count_bin nrpbin rupp_sqr k (cell_r2s (l1 ! nat c) (l2 ! nat c'))) ps))"
  proof (induction ps arbitrary: s)
    case Nil
    then show ?case by simp
  next
    case (Cons p ps)
    obtain c c' where p: "p = (c, c')" by (cases p)
    from Cons.prems have "k < length (npairs (kern (l1 ! nat c) (l2 ! nat c') s))"
      by (simp add: len)
    from Cons.IH [OF this] cnt [OF Cons.prems] show ?case
      by (simp add: p algebra_simps)
  qed
qed

lemma set_nbr_cells:
  assumes "0 < ny" and "0 < nz" and "e \<in> set (nbr_cells bf nx ny nz a b c)"
  shows "0 \<le> e \<and> e < nx * ny * nz"
proof -
  from assms(3) obtain t1 t2 t3 where "\<not> t1 + a < 0" "\<not> nx \<le> t1 + a"
    "\<not> t2 + b < 0" "\<not> ny \<le> t2 + b" "\<not> t3 + c < 0" "\<not> nz \<le> t3 + c"
    and "e = (t1 + a) * ny * nz + (t2 + b) * nz + (t3 + c)"
    by (auto simp: nbr_cells_def split: if_splits)
  with encode_bounds(3,4) [of "t1 + a" nx "t2 + b" ny "t3 + c" nz] show ?thesis by simp
qed

lemma set_cell_pairs:
  assumes "0 < ny" and "0 < nz" and "(c, c') \<in> set (cell_pairs bf nx ny nz cells)"
  shows "c \<in> set cells \<and> 0 \<le> c' \<and> c' < nx * ny * nz"
  using assms set_nbr_cells [OF assms(1,2), of c' bf nx]
  by (auto simp: cell_pairs_def)

lemma nth_lattice:
  assumes "0 \<le> c" and "c < n"
  shows "map f [0..n - 1] ! nat c = f c"
proof -
  from assms have "nat c < length [0..n - 1]" by simp
  moreover from assms have "[0..n - 1] ! nat c = c"
    by (simp add: nth_upto)
  ultimately show ?thesis by simp
qed

lemma count_list_distinct:
  "distinct xs \<Longrightarrow> count_list xs e = (if e \<in> set xs then 1 else 0)"
  by (induction xs) auto

lemma count_list_filter:
  "count_list (filter P xs) e = (if P e then count_list xs e else 0)"
  by (induction xs) auto

lemma mesh_index_bounds:
  assumes "0 < nx" and "0 < ny" and "0 < nz"
  shows "0 \<le> mesh_index xmin xmax ymin ymax zmin zmax nx ny nz X Y Z i"
    and "mesh_index xmin xmax ymin ymax zmin zmax nx ny nz X Y Z i < nx * ny * nz"
  unfolding mesh_index_def
  using encode_bounds(3,4) [OF mesh_coord_bounds [OF assms(1)] mesh_coord_bounds [OF assms(2)]
      mesh_coord_bounds [OF assms(3)]]
  by simp_all

text \<open>
  What a run over the outer cells \<open>cells\<close> adds to \<open>npairs[k]\<close>, for a kernel that adds
  to \<open>npairs[k]\<close> the number of its pairs that fall in bin \<open>k\<close>.
\<close>

lemma run_cells_counts:
  fixes kern :: "cellarray \<Rightarrow> cellarray \<Rightarrow> counters \<Rightarrow> counters"
    and xmin xmax ymin ymax zmin zmax :: DOUBLE and X1 Y1 Z1 X2 Y2 Z2 :: "DOUBLE list"
    and nx ny nz :: int and np1 np2 :: nat
  assumes len: "\<And>first second s. length (npairs (kern first second s)) = length (npairs s)"
    and cnt: "\<And>first second s. k < length (npairs s) \<Longrightarrow>
        npairs (kern first second s) ! k =
          npairs s ! k + of_nat (count_bin nrpbin rupp_sqr k (cell_r2s first second))"
    and pos: "0 < nx" "0 < ny" "0 < nz"
    and cells: "\<forall>icell \<in> set cells. 0 \<le> icell \<and> icell < nx * ny * nz"
    and k: "k < length (npairs s)"
  defines "idx1 \<equiv> mesh_index xmin xmax ymin ymax zmin zmax nx ny nz X1 Y1 Z1"
    and "idx2 \<equiv> mesh_index xmin xmax ymin ymax zmin zmax nx ny nz X2 Y2 Z2"
  defines "l1 \<equiv> map (lattice_cell np1 X1 Y1 Z1 idx1) [0..nx * ny * nz - 1]"
    and "l2 \<equiv> map (lattice_cell np2 X2 Y2 Z2 idx2) [0..nx * ny * nz - 1]"
  shows "\<exists>s'. fold_opt (cell_body kern bf nx ny nz l1 l2) cells s = Some s'
    \<and> length (npairs s') = length (npairs s)
    \<and> npairs s' ! k = npairs s ! k + of_nat (\<Sum>i<np1. \<Sum>j<np2.
        count_list cells (idx1 i) *
        (if \<bar>mesh_coord xmin xmax nx (X1 ! i) - mesh_coord xmin xmax nx (X2 ! j)\<bar> \<le> bf
          \<and> \<bar>mesh_coord ymin ymax ny (Y1 ! i) - mesh_coord ymin ymax ny (Y2 ! j)\<bar> \<le> bf
          \<and> \<bar>mesh_coord zmin zmax nz (Z1 ! i) - mesh_coord zmin zmax nz (Z2 ! j)\<bar> \<le> bf
         then hit nrpbin rupp_sqr k (sqr_dist (X1 ! i) (Y1 ! i) (Z1 ! i) (X2 ! j) (Y2 ! j) (Z2 ! j))
         else 0))"
proof -
  let ?ps = "cell_pairs bf nx ny nz cells"
  let ?d = "\<lambda>i j. sqr_dist (X1 ! i) (Y1 ! i) (Z1 ! i) (X2 ! j) (Y2 ! j) (Z2 ! j)"
  let ?s' = "fold (\<lambda>(c, c'). kern (l1 ! nat c) (l2 ! nat c')) ?ps s"
  from cells have "\<forall>icell \<in> set cells. 0 \<le> icell" by simp
  from cells_Some [OF pos(2,3) this]
  have run: "fold_opt (cell_body kern bf nx ny nz l1 l2) cells s = Some ?s'" .
  have "(\<lambda>(c, c'). count_bin nrpbin rupp_sqr k (cell_r2s (l1 ! nat c) (l2 ! nat c'))) p =
      (\<lambda>(c, c'). \<Sum>i<np1. \<Sum>j<np2. if (idx1 i, idx2 j) = (c, c')
          then hit nrpbin rupp_sqr k (?d i j) else 0) p"
    if "p \<in> set ?ps" for p
  proof -
    obtain c c' where p: "p = (c, c')" by (cases p)
    from set_cell_pairs [OF pos(2,3) that [unfolded p]] cells
    have "0 \<le> c" "c < nx * ny * nz" "0 \<le> c'" "c' < nx * ny * nz" by auto
    then show ?thesis
      by (simp add: p l1_def l2_def nth_lattice count_bin_lattice)
  qed
  then have "sum_list (map (\<lambda>(c, c'). count_bin nrpbin rupp_sqr k
        (cell_r2s (l1 ! nat c) (l2 ! nat c'))) ?ps) =
      sum_list (map (\<lambda>(c, c'). \<Sum>i<np1. \<Sum>j<np2. if (idx1 i, idx2 j) = (c, c')
          then hit nrpbin rupp_sqr k (?d i j) else 0) ?ps)"
    by (intro arg_cong [where f = sum_list] map_cong refl)
  also have "\<dots> = (\<Sum>i<np1. \<Sum>j<np2. count_list ?ps (idx1 i, idx2 j) * hit nrpbin rupp_sqr k (?d i j))"
    by (rule sum_list_cell_counts)
  also have "\<dots> = (\<Sum>i<np1. \<Sum>j<np2. count_list cells (idx1 i) *
        (if \<bar>mesh_coord xmin xmax nx (X1 ! i) - mesh_coord xmin xmax nx (X2 ! j)\<bar> \<le> bf
          \<and> \<bar>mesh_coord ymin ymax ny (Y1 ! i) - mesh_coord ymin ymax ny (Y2 ! j)\<bar> \<le> bf
          \<and> \<bar>mesh_coord zmin zmax nz (Z1 ! i) - mesh_coord zmin zmax nz (Z2 ! j)\<bar> \<le> bf
         then hit nrpbin rupp_sqr k (?d i j) else 0))"
  proof (intro sum.cong refl)
    fix i j
    note m = mesh_coord_bounds [OF pos(1)] mesh_coord_bounds [OF pos(2)] mesh_coord_bounds [OF pos(3)]
    have "count_list ?ps (idx1 i, idx2 j) = count_list cells (idx1 i) *
        (if \<bar>mesh_coord xmin xmax nx (X1 ! i) - mesh_coord xmin xmax nx (X2 ! j)\<bar> \<le> bf
          \<and> \<bar>mesh_coord ymin ymax ny (Y1 ! i) - mesh_coord ymin ymax ny (Y2 ! j)\<bar> \<le> bf
          \<and> \<bar>mesh_coord zmin zmax nz (Z1 ! i) - mesh_coord zmin zmax nz (Z2 ! j)\<bar> \<le> bf
         then 1 else 0)"
      unfolding idx1_def idx2_def mesh_index_def
      by (rule count_list_cell_pairs) (rule m)+
    then show "count_list ?ps (idx1 i, idx2 j) * hit nrpbin rupp_sqr k (?d i j) =
        count_list cells (idx1 i) *
        (if \<bar>mesh_coord xmin xmax nx (X1 ! i) - mesh_coord xmin xmax nx (X2 ! j)\<bar> \<le> bf
          \<and> \<bar>mesh_coord ymin ymax ny (Y1 ! i) - mesh_coord ymin ymax ny (Y2 ! j)\<bar> \<le> bf
          \<and> \<bar>mesh_coord zmin zmax nz (Z1 ! i) - mesh_coord zmin zmax nz (Z2 ! j)\<bar> \<le> bf
         then hit nrpbin rupp_sqr k (?d i j) else 0)"
      by simp
  qed
  finally have sum: "sum_list (map (\<lambda>(c, c'). count_bin nrpbin rupp_sqr k
        (cell_r2s (l1 ! nat c) (l2 ! nat c'))) ?ps) = \<dots>" .
  from fold_kernel_cells [of kern k nrpbin rupp_sqr, OF len cnt]
  have "length (npairs ?s') = length (npairs s)"
    and "npairs ?s' ! k = npairs s ! k + of_nat (sum_list (map (\<lambda>(c, c').
            count_bin nrpbin rupp_sqr k (cell_r2s (l1 ! nat c) (l2 ! nat c'))) ?ps))"
    using k by simp_all
  with run sum show ?thesis by simp
qed

subsection \<open>The output loop\<close>

lemma fold_report_fst:
  "fst (fold (\<lambda>i (pc, out, rlow). (pc[i := f i], g i out rlow, h i)) is (pc, out, rlow)) =
     fold (\<lambda>i pc. pc[i := f i]) is pc"
  by (induction "is" arbitrary: pc out rlow) simp_all

lemma histogram_report_bins:
  "histogram (report_bins nrpbin rupp paircounts s) =
     fold (\<lambda>i pc. pc[i := npairs s ! i]) [1..<nrpbin] paircounts"
proof -
  let ?means = "map (\<lambda>i. if npairs s ! i > 0 then rpavg s ! i / real (unat (npairs s ! i))
      else rpavg s ! i) [0..<nrpbin]"
  let ?r = "fold (\<lambda>i (pc, out, rlow).
      (pc[i := npairs s ! i], out @ [(npairs s ! i, ?means ! i, rlow, rupp ! i)], rupp ! i))
    [1..<nrpbin] (paircounts, [], rupp ! 0)"
  have "histogram (report_bins nrpbin rupp paircounts s) = fst ?r"
    by (simp add: report_bins_def Let_def split: prod.splits)
  also have "\<dots> = fold (\<lambda>i pc. pc[i := npairs s ! i]) [1..<nrpbin] paircounts"
    by (rule fold_report_fst [of "\<lambda>i. npairs s ! i"
          "\<lambda>i out rlow. out @ [(npairs s ! i, ?means ! i, rlow, rupp ! i)]" "\<lambda>i. rupp ! i"])
  finally show ?thesis .
qed

lemma nth_update_if:
  "xs[a := v] ! k = (if k = a \<and> k < length xs then v else xs ! k)"
  by (cases "k = a") (auto simp: list_update_beyond not_less)

lemma fold_update_nth:
  "length (fold (\<lambda>i pc. pc[i := f i]) is pc) = length pc"
  "fold (\<lambda>i pc. pc[i := f i]) is pc ! k = (if k \<in> set is \<and> k < length pc then f k else pc ! k)"
  by (induction "is" arbitrary: pc) (auto simp: nth_update_if)

lemma histogram_report_bins_nth:
  "length (histogram (report_bins nrpbin rupp paircounts s)) = length paircounts"
  "histogram (report_bins nrpbin rupp paircounts s) ! k =
     (if 1 \<le> k \<and> k < nrpbin \<and> k < length paircounts then npairs s ! k else paircounts ! k)"
  by (auto simp: histogram_report_bins fold_update_nth)

subsection \<open>The scalar kernel counts its pairs\<close>

lemma scalar_kernel_counts:
  "length (npairs (scalar_kernel SQRT nrpbin rupp_sqr first second s)) = length (npairs s)"
  "k < length (npairs s) \<Longrightarrow>
     npairs (scalar_kernel SQRT nrpbin rupp_sqr first second s) ! k =
       npairs s ! k + of_nat (count_bin nrpbin rupp_sqr k (cell_r2s first second))"
  by (simp_all add: scalar_kernel_fold npairs_fold_bin_r2)

subsection \<open>Counting pairs\<close>

lemma count_pairs_sum:
  "count_pairs P n m = (\<Sum>i<n. \<Sum>j<m. if P i j then 1 else 0)"
proof -
  have inner: "length (filter ((\<lambda>(i, j). P i j) \<circ> Pair a) bs) =
      sum_list (map (\<lambda>j. if P a j then 1 else 0) bs)" for a bs
    by (induction bs) simp_all
  have "length (filter (\<lambda>(i, j). P i j) (List.product as bs)) =
      sum_list (map (\<lambda>i. sum_list (map (\<lambda>j. if P i j then 1 else 0) bs)) as)" for as bs
    by (induction as) (simp_all add: inner)
  then show ?thesis
    by (simp add: count_pairs_def interv_sum_list_conv_sum_set_nat atLeast0LessThan)
qed

lemma count_list_upto:
  "count_list [i..j] e = (if i \<le> e \<and> e \<le> j then 1 else 0)"
  by (simp add: count_list_distinct)

subsection \<open>The whole run\<close>

lemma run_all_cells:
  fixes kern :: "cellarray \<Rightarrow> cellarray \<Rightarrow> counters \<Rightarrow> counters"
    and xmin xmax ymin ymax zmin zmax rmax :: DOUBLE and X1 Y1 Z1 X2 Y2 Z2 :: "DOUBLE list"
    and ND1 ND2 :: nat and bf :: int
  assumes len: "\<And>first second s. length (npairs (kern first second s)) = length (npairs s)"
    and cnt: "\<And>first second s k. k < length (npairs s) \<Longrightarrow>
        npairs (kern first second s) ! k =
          npairs s ! k + of_nat (count_bin nrpbin (rupp_sqr_of nrpbin rupp) k (cell_r2s first second))"
  defines "nx \<equiv> mesh_size xmin xmax rmax bf" and "ny \<equiv> mesh_size ymin ymax rmax bf"
    and "nz \<equiv> mesh_size zmin zmax rmax bf"
  defines "l1 \<equiv> map (lattice_cell ND1 X1 Y1 Z1
                      (mesh_index xmin xmax ymin ymax zmin zmax nx ny nz X1 Y1 Z1)) [0..nx * ny * nz - 1]"
    and "l2 \<equiv> map (lattice_cell ND2 X2 Y2 Z2
                      (mesh_index xmin xmax ymin ymax zmin zmax nx ny nz X2 Y2 Z2)) [0..nx * ny * nz - 1]"
  shows "\<exists>s'. fold_opt (cell_body kern bf nx ny nz l1 l2) [0..nx * ny * nz - 1]
            \<lparr>npairs = replicate nrpbin 0, rpavg = replicate nrpbin 0\<rparr> = Some s'
    \<and> length (npairs s') = nrpbin
    \<and> (\<forall>k<nrpbin. npairs s' ! k =
          of_nat (pairs_in_bin bf xmin xmax ymin ymax zmin zmax rmax nrpbin rupp
                    ND1 X1 Y1 Z1 ND2 X2 Y2 Z2 k))"
proof -
  let ?s0 = "\<lparr>npairs = replicate nrpbin (0 :: 32 word), rpavg = replicate nrpbin (0 :: DOUBLE)\<rparr>"
  let ?cells = "[0..nx * ny * nz - 1]"
  let ?ps = "cell_pairs bf nx ny nz ?cells"
  let ?s' = "fold (\<lambda>(c, c'). kern (l1 ! nat c) (l2 ! nat c')) ?ps ?s0"
  have pos: "0 < nx" "0 < ny" "0 < nz"
    by (simp_all add: nx_def ny_def nz_def)
  have cells: "\<forall>icell \<in> set ?cells. 0 \<le> icell \<and> icell < nx * ny * nz"
    by simp
  then have "\<forall>icell \<in> set ?cells. 0 \<le> icell" by simp
  from cells_Some [OF pos(2,3) this]
  have run: "fold_opt (cell_body kern bf nx ny nz l1 l2) ?cells ?s0 = Some ?s'" .
  have l: "length (npairs ?s') = nrpbin"
    using fold_kernel_cells(1) [of kern, OF len cnt] by simp
  have "npairs ?s' ! k = of_nat (pairs_in_bin bf xmin xmax ymin ymax zmin zmax rmax nrpbin rupp
      ND1 X1 Y1 Z1 ND2 X2 Y2 Z2 k)" if k: "k < nrpbin" for k
  proof -
    from k have k': "k < length (npairs ?s0)" by simp
    from run_cells_counts [of kern k nrpbin "rupp_sqr_of nrpbin rupp", OF len cnt pos cells k',
        where xmin = xmin and xmax = xmax and ymin = ymin and ymax = ymax and zmin = zmin
          and zmax = zmax and ?X1.0 = X1 and ?Y1.0 = Y1 and ?Z1.0 = Z1 and ?np1.0 = ND1
          and ?X2.0 = X2 and ?Y2.0 = Y2 and ?Z2.0 = Z2 and ?np2.0 = ND2 and bf = bf]
    have "npairs ?s' ! k = of_nat (\<Sum>i<ND1. \<Sum>j<ND2.
        count_list ?cells (mesh_index xmin xmax ymin ymax zmin zmax nx ny nz X1 Y1 Z1 i) *
        (if \<bar>mesh_coord xmin xmax nx (X1 ! i) - mesh_coord xmin xmax nx (X2 ! j)\<bar> \<le> bf
          \<and> \<bar>mesh_coord ymin ymax ny (Y1 ! i) - mesh_coord ymin ymax ny (Y2 ! j)\<bar> \<le> bf
          \<and> \<bar>mesh_coord zmin zmax nz (Z1 ! i) - mesh_coord zmin zmax nz (Z2 ! j)\<bar> \<le> bf
         then hit nrpbin (rupp_sqr_of nrpbin rupp) k
                (sqr_dist (X1 ! i) (Y1 ! i) (Z1 ! i) (X2 ! j) (Y2 ! j) (Z2 ! j))
         else 0))"
      using run k by (simp add: l1_def l2_def)
    also have "(\<Sum>i<ND1. \<Sum>j<ND2.
        count_list ?cells (mesh_index xmin xmax ymin ymax zmin zmax nx ny nz X1 Y1 Z1 i) *
        (if \<bar>mesh_coord xmin xmax nx (X1 ! i) - mesh_coord xmin xmax nx (X2 ! j)\<bar> \<le> bf
          \<and> \<bar>mesh_coord ymin ymax ny (Y1 ! i) - mesh_coord ymin ymax ny (Y2 ! j)\<bar> \<le> bf
          \<and> \<bar>mesh_coord zmin zmax nz (Z1 ! i) - mesh_coord zmin zmax nz (Z2 ! j)\<bar> \<le> bf
         then hit nrpbin (rupp_sqr_of nrpbin rupp) k
                (sqr_dist (X1 ! i) (Y1 ! i) (Z1 ! i) (X2 ! j) (Y2 ! j) (Z2 ! j))
         else 0)) =
      pairs_in_bin bf xmin xmax ymin ymax zmin zmax rmax nrpbin rupp ND1 X1 Y1 Z1 ND2 X2 Y2 Z2 k"
      unfolding pairs_in_bin_def count_pairs_sum
    proof (intro sum.cong refl)
      fix i j
      have "count_list ?cells (mesh_index xmin xmax ymin ymax zmin zmax nx ny nz X1 Y1 Z1 i) = 1"
        using mesh_index_bounds [OF pos, of xmin xmax ymin ymax zmin zmax X1 Y1 Z1 i]
        by (simp add: count_list_upto)
      then show "count_list ?cells (mesh_index xmin xmax ymin ymax zmin zmax nx ny nz X1 Y1 Z1 i) *
        (if \<bar>mesh_coord xmin xmax nx (X1 ! i) - mesh_coord xmin xmax nx (X2 ! j)\<bar> \<le> bf
          \<and> \<bar>mesh_coord ymin ymax ny (Y1 ! i) - mesh_coord ymin ymax ny (Y2 ! j)\<bar> \<le> bf
          \<and> \<bar>mesh_coord zmin zmax nz (Z1 ! i) - mesh_coord zmin zmax nz (Z2 ! j)\<bar> \<le> bf
         then hit nrpbin (rupp_sqr_of nrpbin rupp) k
                (sqr_dist (X1 ! i) (Y1 ! i) (Z1 ! i) (X2 ! j) (Y2 ! j) (Z2 ! j))
         else 0) =
        (if near_cells bf xmin xmax ymin ymax zmin zmax rmax
              (X1 ! i) (Y1 ! i) (Z1 ! i) (X2 ! j) (Y2 ! j) (Z2 ! j)
            \<and> bin_of nrpbin (rupp_sqr_of nrpbin rupp)
                (sqr_dist (X1 ! i) (Y1 ! i) (Z1 ! i) (X2 ! j) (Y2 ! j) (Z2 ! j)) = Some k
         then 1 else 0)"
        by (simp add: near_cells_def hit_def nx_def ny_def nz_def)
    qed
    finally show ?thesis .
  qed
  with run l show ?thesis by blast
qed

lemma countpairs_nopbc_result:
  fixes xmin xmax ymin ymax zmin zmax rpmax :: DOUBLE and X1 Y1 Z1 X2 Y2 Z2 :: "DOUBLE list"
    and ND1 ND2 :: nat
  assumes len: "\<And>first second s.
        length (npairs (pair_kernel SQRT build nrpbin (rupp_sqr_of nrpbin rupp) first second s)) =
          length (npairs s)"
    and cnt: "\<And>first second s k. k < length (npairs s) \<Longrightarrow>
        npairs (pair_kernel SQRT build nrpbin (rupp_sqr_of nrpbin rupp) first second s) ! k =
          npairs s ! k + of_nat (count_bin nrpbin (rupp_sqr_of nrpbin rupp) k (cell_r2s first second))"
  shows "\<exists>r. countpairs_nopbc SQRT build ND1 X1 Y1 Z1 ND2 X2 Y2 Z2 xmin xmax ymin ymax zmin zmax
            autocorr rpmax nrpbin rupp paircounts = Some r
    \<and> length (histogram r) = length paircounts
    \<and> (\<forall>k. histogram r ! k =
          (if 1 \<le> k \<and> k < nrpbin \<and> k < length paircounts
           then of_nat (if autocorr = 0
                        then pairs_in_bin 2 xmin xmax ymin ymax zmin zmax rpmax nrpbin rupp
                               ND1 X1 Y1 Z1 ND2 X2 Y2 Z2 k
                        else pairs_in_bin 2 xmin xmax ymin ymax zmin zmax rpmax nrpbin rupp
                               ND1 X1 Y1 Z1 ND1 X1 Y1 Z1 k)
           else paircounts ! k))"
proof (cases "autocorr = 0")
  case True
  from run_all_cells [of "pair_kernel SQRT build nrpbin (rupp_sqr_of nrpbin rupp)" nrpbin rupp,
      OF len cnt, where bf = 2 and rmax = rpmax and xmin = xmin and xmax = xmax and ymin = ymin
      and ymax = ymax and zmin = zmin and zmax = zmax and ?X1.0 = X1 and ?Y1.0 = Y1 and ?Z1.0 = Z1
      and ?ND1.0 = ND1 and ?X2.0 = X2 and ?Y2.0 = Y2 and ?Z2.0 = Z2 and ?ND2.0 = ND2]
  obtain s' where "fold_opt
       (cell_body (pair_kernel SQRT build nrpbin (rupp_sqr_of nrpbin rupp)) 2
         (mesh_size xmin xmax rpmax 2) (mesh_size ymin ymax rpmax 2) (mesh_size zmin zmax rpmax 2)
         (map (lattice_cell ND1 X1 Y1 Z1
                (mesh_index xmin xmax ymin ymax zmin zmax (mesh_size xmin xmax rpmax 2)
                  (mesh_size ymin ymax rpmax 2) (mesh_size zmin zmax rpmax 2) X1 Y1 Z1))
           [0..mesh_size xmin xmax rpmax 2 * mesh_size ymin ymax rpmax 2 * mesh_size zmin zmax rpmax 2 - 1])
         (map (lattice_cell ND2 X2 Y2 Z2
                (mesh_index xmin xmax ymin ymax zmin zmax (mesh_size xmin xmax rpmax 2)
                  (mesh_size ymin ymax rpmax 2) (mesh_size zmin zmax rpmax 2) X2 Y2 Z2))
           [0..mesh_size xmin xmax rpmax 2 * mesh_size ymin ymax rpmax 2 * mesh_size zmin zmax rpmax 2 - 1]))
       [0..mesh_size xmin xmax rpmax 2 * mesh_size ymin ymax rpmax 2 * mesh_size zmin zmax rpmax 2 - 1]
       \<lparr>npairs = replicate nrpbin 0, rpavg = replicate nrpbin 0\<rparr> = Some s'"
    and "length (npairs s') = nrpbin"
    and "\<forall>k<nrpbin. npairs s' ! k =
          of_nat (pairs_in_bin 2 xmin xmax ymin ymax zmin zmax rpmax nrpbin rupp
                    ND1 X1 Y1 Z1 ND2 X2 Y2 Z2 k)"
    by blast
  then show ?thesis
    using True
    by (simp add: countpairs_nopbc_def gridlink_nopbc_def Let_def histogram_report_bins_nth)
next
  case False
  from run_all_cells [of "pair_kernel SQRT build nrpbin (rupp_sqr_of nrpbin rupp)" nrpbin rupp,
      OF len cnt, where bf = 2 and rmax = rpmax and xmin = xmin and xmax = xmax and ymin = ymin
      and ymax = ymax and zmin = zmin and zmax = zmax and ?X1.0 = X1 and ?Y1.0 = Y1 and ?Z1.0 = Z1
      and ?ND1.0 = ND1 and ?X2.0 = X1 and ?Y2.0 = Y1 and ?Z2.0 = Z1 and ?ND2.0 = ND1]
  obtain s' where "fold_opt
       (cell_body (pair_kernel SQRT build nrpbin (rupp_sqr_of nrpbin rupp)) 2
         (mesh_size xmin xmax rpmax 2) (mesh_size ymin ymax rpmax 2) (mesh_size zmin zmax rpmax 2)
         (map (lattice_cell ND1 X1 Y1 Z1
                (mesh_index xmin xmax ymin ymax zmin zmax (mesh_size xmin xmax rpmax 2)
                  (mesh_size ymin ymax rpmax 2) (mesh_size zmin zmax rpmax 2) X1 Y1 Z1))
           [0..mesh_size xmin xmax rpmax 2 * mesh_size ymin ymax rpmax 2 * mesh_size zmin zmax rpmax 2 - 1])
         (map (lattice_cell ND1 X1 Y1 Z1
                (mesh_index xmin xmax ymin ymax zmin zmax (mesh_size xmin xmax rpmax 2)
                  (mesh_size ymin ymax rpmax 2) (mesh_size zmin zmax rpmax 2) X1 Y1 Z1))
           [0..mesh_size xmin xmax rpmax 2 * mesh_size ymin ymax rpmax 2 * mesh_size zmin zmax rpmax 2 - 1]))
       [0..mesh_size xmin xmax rpmax 2 * mesh_size ymin ymax rpmax 2 * mesh_size zmin zmax rpmax 2 - 1]
       \<lparr>npairs = replicate nrpbin 0, rpavg = replicate nrpbin 0\<rparr> = Some s'"
    and "length (npairs s') = nrpbin"
    and "\<forall>k<nrpbin. npairs s' ! k =
          of_nat (pairs_in_bin 2 xmin xmax ymin ymax zmin zmax rpmax nrpbin rupp
                    ND1 X1 Y1 Z1 ND1 X1 Y1 Z1 k)"
    by blast
  then show ?thesis
    using False
    by (simp add: countpairs_nopbc_def gridlink_nopbc_def Let_def histogram_report_bins_nth)
qed

section \<open>The AVX kernel\<close>

subsection \<open>Masks\<close>

lemma AVX_TEST_COMPARISON_Nil [simp]: "AVX_TEST_COMPARISON [] = 0"
  by (simp add: AVX_TEST_COMPARISON_def)

lemma AVX_TEST_COMPARISON_Cons [simp]:
  "AVX_TEST_COMPARISON (b # m) = of_bool b + 2 * AVX_TEST_COMPARISON m"
  by (simp add: AVX_TEST_COMPARISON_def)

lemma AVX_TEST_COMPARISON_eq_0: "AVX_TEST_COMPARISON m = 0 \<longleftrightarrow> (\<forall>b \<in> set m. \<not> b)"
  by (induction m) auto

lemma AVX_BIT_COUNT_INT_0 [simp]: "AVX_BIT_COUNT_INT 0 = 0"
  by (simp add: AVX_BIT_COUNT_INT.simps)

lemma AVX_BIT_COUNT_INT_double: "AVX_BIT_COUNT_INT (of_bool b + 2 * n) = of_bool b + AVX_BIT_COUNT_INT n"
proof (cases "of_bool b + 2 * n = (0::nat)")
  case True
  then have "\<not> b" and "n = 0" by (auto split: if_splits)
  then show ?thesis
    by (simp add: AVX_BIT_COUNT_INT.simps)
next
  case False
  have "(of_bool b + 2 * n) mod 2 = (of_bool b :: nat)" and "(of_bool b + 2 * n) div 2 = n"
    by (cases b; simp)+
  with False show ?thesis
    by (subst AVX_BIT_COUNT_INT.simps) simp
qed

lemma popcount_movemask: "AVX_BIT_COUNT_INT (AVX_TEST_COMPARISON m) = length (filter (\<lambda>b. b) m)"
proof (induction m)
  case Nil
  show ?case by (simp add: AVX_BIT_COUNT_INT.simps)
next
  case (Cons b m)
  then show ?case by (simp add: AVX_BIT_COUNT_INT_double)
qed

lemma AVX_compare_set:
  "length a = NVEC \<Longrightarrow> AVX_COMPARE_FLOATS_LT a (AVX_SET_FLOAT NVEC v) = map (\<lambda>u. u < v) a"
  "length a = NVEC \<Longrightarrow> AVX_COMPARE_FLOATS_GE a (AVX_SET_FLOAT NVEC v) = map (\<lambda>u. u \<ge> v) a"
  by (simp_all add: AVX_COMPARE_FLOATS_LT_def AVX_COMPARE_FLOATS_GE_def AVX_SET_FLOAT_def
      map2_map_map [symmetric] zip_replicate2 list_eq_iff_nth_eq)

lemma AVX_and_map:
  "AVX_BITWISE_AND (map P a) (map Q a) = map (\<lambda>u. P u \<and> Q u) a"
  by (simp add: AVX_BITWISE_AND_def list_eq_iff_nth_eq)

lemma AVX_blend_set:
  "length a = NVEC \<Longrightarrow>
   AVX_BLEND_FLOATS_WITH_MASK (AVX_SET_FLOAT NVEC v) a (map P a) = map (\<lambda>u. if P u then u else v) a"
  by (simp add: AVX_BLEND_FLOATS_WITH_MASK_def AVX_SET_FLOAT_def list_eq_iff_nth_eq)

lemma length_filter_map: "length (filter (\<lambda>b. b) (map P a)) = length (filter P a)"
  by (induction a) simp_all

subsection \<open>The vector scan\<close>

lemma avx_kbin_loop_step:
  assumes "length r2 = NVEC"
  shows "avx_kbin_loop NVEC rupp_sqr r2 (Suc k) (map (\<lambda>v. v < rupp_sqr ! Suc k) r2) m_rpbin np =
      (if \<forall>v \<in> set r2. \<not> v < rupp_sqr ! k
       then (np[Suc k := np ! Suc k + of_nat (length (filter (\<lambda>v. rupp_sqr ! k \<le> v \<and> v < rupp_sqr ! Suc k) r2))],
             AVX_BLEND_FLOATS_WITH_MASK m_rpbin (AVX_SET_FLOAT NVEC (of_nat (Suc k)))
               (map (\<lambda>v. rupp_sqr ! k \<le> v \<and> v < rupp_sqr ! Suc k) r2))
       else avx_kbin_loop NVEC rupp_sqr r2 k (map (\<lambda>v. v < rupp_sqr ! k) r2)
              (AVX_BLEND_FLOATS_WITH_MASK m_rpbin (AVX_SET_FLOAT NVEC (of_nat (Suc k)))
                 (map (\<lambda>v. rupp_sqr ! k \<le> v \<and> v < rupp_sqr ! Suc k) r2))
              (np[Suc k := np ! Suc k + of_nat (length (filter (\<lambda>v. rupp_sqr ! k \<le> v \<and> v < rupp_sqr ! Suc k) r2))]))"
  using assms
  by (simp add: Let_def AVX_compare_set AVX_and_map popcount_movemask length_filter_map
      AVX_TEST_COMPARISON_eq_0 comp_def)

lemma avx_kbin_loop_length:
  assumes "length r2 = NVEC"
  shows "length (fst (avx_kbin_loop NVEC rupp_sqr r2 k (map (\<lambda>v. v < rupp_sqr ! k) r2) m_rpbin np))
           = length np"
proof (induction k arbitrary: m_rpbin np)
  case 0
  show ?case by simp
next
  case (Suc k)
  then show ?case
    by (simp only: avx_kbin_loop_step [OF assms] split: if_splits) simp
qed

lemma avx_kbin_loop_npairs:
  assumes "length r2 = NVEC"
    and "\<And>i j. i \<le> j \<Longrightarrow> j \<le> k \<Longrightarrow> rupp_sqr ! i \<le> rupp_sqr ! j"
    and "m < length np"
  shows "fst (avx_kbin_loop NVEC rupp_sqr r2 k (map (\<lambda>v. v < rupp_sqr ! k) r2) m_rpbin np) ! m =
        np ! m + of_nat (length (filter (\<lambda>v. 1 \<le> m \<and> m \<le> k \<and> rupp_sqr ! (m - 1) \<le> v
                                              \<and> v < rupp_sqr ! m) r2))"
  using assms(2,3)
proof (induction k arbitrary: m_rpbin np)
  case 0
  then show ?case by simp
next
  case (Suc k)
  let ?np = "np[Suc k := np ! Suc k + of_nat (length (filter (\<lambda>v. rupp_sqr ! k \<le> v \<and> v < rupp_sqr ! Suc k) r2))]"
  let ?rp = "AVX_BLEND_FLOATS_WITH_MASK m_rpbin (AVX_SET_FLOAT NVEC (of_nat (Suc k)))
      (map (\<lambda>v. rupp_sqr ! k \<le> v \<and> v < rupp_sqr ! Suc k) r2)"
  note step = avx_kbin_loop_step [OF assms(1), of rupp_sqr k m_rpbin np]
  have mono: "\<And>i j. i \<le> j \<Longrightarrow> j \<le> k \<Longrightarrow> rupp_sqr ! i \<le> rupp_sqr ! j"
    using Suc.prems(1) by simp
  from Suc.prems(2) have m: "m < length ?np" by simp
  note ih = Suc.IH [OF mono m, of ?rp]
  show ?case
  proof (cases "\<forall>v \<in> set r2. \<not> v < rupp_sqr ! k")
    case all: True
    note st = trans [OF step if_P [OF all]]
    show ?thesis
    proof (cases "m = Suc k")
      case True
      with Suc.prems(2) show ?thesis
        by (simp add: st del: avx_kbin_loop.simps)
    next
      case ne: False
      have "\<not> (1 \<le> m \<and> m \<le> Suc k \<and> rupp_sqr ! (m - 1) \<le> v \<and> v < rupp_sqr ! m)"
        if v: "v \<in> set r2" for v
      proof
        assume a: "1 \<le> m \<and> m \<le> Suc k \<and> rupp_sqr ! (m - 1) \<le> v \<and> v < rupp_sqr ! m"
        with ne have "m \<le> k" by simp
        then have "rupp_sqr ! m \<le> rupp_sqr ! k" by (intro mono) simp_all
        with a all v show False by force
      qed
      then have "filter (\<lambda>v. 1 \<le> m \<and> m \<le> Suc k \<and> rupp_sqr ! (m - 1) \<le> v \<and> v < rupp_sqr ! m) r2 = []"
        by (simp add: filter_empty_conv)
      with ne Suc.prems(2) show ?thesis
        by (simp add: st del: avx_kbin_loop.simps)
    qed
  next
    case False
    note st = trans [OF step if_not_P [OF False]]
    show ?thesis
    proof (cases "m = Suc k")
      case True
      with Suc.prems(2) ih show ?thesis
        by (simp add: st del: avx_kbin_loop.simps)
    next
      case ne: False
      have eq: "filter (\<lambda>v. 1 \<le> m \<and> m \<le> Suc k \<and> rupp_sqr ! (m - 1) \<le> v \<and> v < rupp_sqr ! m) r2 =
          filter (\<lambda>v. 1 \<le> m \<and> m \<le> k \<and> rupp_sqr ! (m - 1) \<le> v \<and> v < rupp_sqr ! m) r2"
        using ne by (intro filter_cong refl) auto
      from ne ih show ?thesis
        unfolding eq by (simp add: st del: avx_kbin_loop.simps)
    qed
  qed
qed

subsection \<open>One vector step\<close>

lemma bin_of_sorted_iff:
  assumes "\<And>i j. i \<le> j \<Longrightarrow> j \<le> nrpbin - 1 \<Longrightarrow> rupp_sqr ! i \<le> rupp_sqr ! j"
  shows "bin_of nrpbin rupp_sqr v = Some m \<longleftrightarrow>
    1 \<le> m \<and> m \<le> nrpbin - 1 \<and> rupp_sqr ! (m - 1) \<le> v \<and> v < rupp_sqr ! m"
proof
  assume "bin_of nrpbin rupp_sqr v = Some m"
  from bin_of_range [OF this]
  show "1 \<le> m \<and> m \<le> nrpbin - 1 \<and> rupp_sqr ! (m - 1) \<le> v \<and> v < rupp_sqr ! m"
    by simp
next
  assume r: "1 \<le> m \<and> m \<le> nrpbin - 1 \<and> rupp_sqr ! (m - 1) \<le> v \<and> v < rupp_sqr ! m"
  then have "rupp_sqr ! 0 \<le> rupp_sqr ! (m - 1)" and "rupp_sqr ! m \<le> rupp_sqr ! (nrpbin - 1)"
    by (auto intro!: assms)
  with r have "rupp_sqr ! 0 \<le> v" and "v < rupp_sqr ! (nrpbin - 1)" by auto
  from bin_of_Some [OF this] obtain l where l: "bin_of nrpbin rupp_sqr v = Some l" by blast
  from bin_of_range [OF l] have lr: "1 \<le> l" "l < nrpbin" "rupp_sqr ! (l - 1) \<le> v" "v < rupp_sqr ! l"
    by simp_all
  have "l = m"
  proof (rule ccontr)
    assume "l \<noteq> m"
    then consider "l < m" | "m < l" by linarith
    then show False
    proof cases
      case 1
      with r have "rupp_sqr ! l \<le> rupp_sqr ! (m - 1)" by (intro assms) auto
      with r lr show False by simp
    next
      case 2
      with lr have "rupp_sqr ! m \<le> rupp_sqr ! (l - 1)" by (intro assms) auto
      with r lr show False by simp
    qed
  qed
  with l show "bin_of nrpbin rupp_sqr v = Some m" by simp
qed

lemma avx_lanes:
  "AVX_ADD_FLOATS
     (AVX_SQUARE_FLOAT (AVX_SUBTRACT_FLOATS (AVX_SET_FLOAT NVEC z1pos)
        (AVX_LOAD_FLOATS_UNALIGNED NVEC (z second) j)))
     (AVX_ADD_FLOATS
        (AVX_SQUARE_FLOAT (AVX_SUBTRACT_FLOATS (AVX_SET_FLOAT NVEC x1pos)
           (AVX_LOAD_FLOATS_UNALIGNED NVEC (x second) j)))
        (AVX_SQUARE_FLOAT (AVX_SUBTRACT_FLOATS (AVX_SET_FLOAT NVEC y1pos)
           (AVX_LOAD_FLOATS_UNALIGNED NVEC (y second) j)))) =
   lane_r2s NVEC x1pos y1pos z1pos second j"
  by (simp add: list_eq_iff_nth_eq AVX_ADD_FLOATS_def AVX_SQUARE_FLOAT_def AVX_SUBTRACT_FLOATS_def
      AVX_SET_FLOAT_def AVX_LOAD_FLOATS_UNALIGNED_def lane_r2s_def sqr_dist_def Let_def)

lemma avx_block_unfold:
  "avx_block SQRT NVEC nrpbin rupp_sqr x1pos y1pos z1pos second j s =
     (let r2 = lane_r2s NVEC x1pos y1pos z1pos second j;
          sqr_rpmax = rupp_sqr ! (nrpbin - 1); sqr_rpmin = rupp_sqr ! 0
      in if \<forall>v \<in> set r2. \<not> v < sqr_rpmax then s
         else if \<forall>v \<in> set r2. \<not> (v < sqr_rpmax \<and> sqr_rpmin \<le> v) then s
         else
           let r2' = map (\<lambda>v. if v < sqr_rpmax \<and> sqr_rpmin \<le> v then v else sqr_rpmax) r2;
               res = avx_kbin_loop NVEC rupp_sqr r2' (nrpbin - 1) (map (\<lambda>v. v < sqr_rpmax) r2')
                       (AVX_SET_FLOAT NVEC 0) (npairs s)
           in s\<lparr>npairs := fst res,
                rpavg := fold (\<lambda>jj rp.
                    rp[nat (AVX_TRUNCATE_FLOAT_TO_INT (snd res) ! jj) :=
                         rp ! nat (AVX_TRUNCATE_FLOAT_TO_INT (snd res) ! jj)
                           + AVX_SQRT_FLOAT SQRT r2' ! jj])
                  [0..<NVEC] (rpavg s)\<rparr>)"
proof -
  let ?r2 = "lane_r2s NVEC x1pos y1pos z1pos second j"
  let ?mx = "rupp_sqr ! (nrpbin - 1)" and ?mn = "rupp_sqr ! 0"
  let ?r2' = "map (\<lambda>v. if v < ?mx \<and> ?mn \<le> v then v else ?mx) ?r2"
  have len: "length ?r2 = NVEC" and len': "length ?r2' = NVEC"
    by (simp_all add: lane_r2s_def)
  have f1: "AVX_COMPARE_FLOATS_LT ?r2 (AVX_SET_FLOAT NVEC ?mx) = map (\<lambda>v. v < ?mx) ?r2"
    by (rule AVX_compare_set(1) [OF len])
  have f2: "AVX_BITWISE_AND (map (\<lambda>v. v < ?mx) ?r2) (AVX_COMPARE_FLOATS_GE ?r2 (AVX_SET_FLOAT NVEC ?mn)) =
      map (\<lambda>v. v < ?mx \<and> ?mn \<le> v) ?r2"
    by (simp only: AVX_compare_set(2) [OF len] AVX_and_map)
  have f3: "AVX_BLEND_FLOATS_WITH_MASK (AVX_SET_FLOAT NVEC ?mx) ?r2 (map (\<lambda>v. v < ?mx \<and> ?mn \<le> v) ?r2) = ?r2'"
    by (rule AVX_blend_set [OF len])
  have f4: "AVX_COMPARE_FLOATS_LT ?r2' (AVX_SET_FLOAT NVEC ?mx) = map (\<lambda>v. v < ?mx) ?r2'"
    by (rule AVX_compare_set(1) [OF len'])
  have t1: "(AVX_TEST_COMPARISON (map (\<lambda>v. v < ?mx) ?r2) = 0) = (\<forall>v \<in> set ?r2. \<not> v < ?mx)"
    by (simp add: AVX_TEST_COMPARISON_eq_0)
  have t2: "(AVX_TEST_COMPARISON (map (\<lambda>v. v < ?mx \<and> ?mn \<le> v) ?r2) = 0) =
      (\<forall>v \<in> set ?r2. \<not> (v < ?mx \<and> ?mn \<le> v))"
    by (simp add: AVX_TEST_COMPARISON_eq_0)
  show ?thesis
    unfolding avx_block_def Let_def avx_lanes f1 f2 f3 f4 t1 t2 case_prod_beta
    by (rule refl)
qed

lemma avx_block_npairs:
  assumes sorted: "\<And>i j. i \<le> j \<Longrightarrow> j \<le> nrpbin - 1 \<Longrightarrow> rupp_sqr ! i \<le> rupp_sqr ! j"
  shows "length (npairs (avx_block SQRT NVEC nrpbin rupp_sqr x1pos y1pos z1pos second j s))
      = length (npairs s)"
    and "m < length (npairs s) \<Longrightarrow>
      npairs (avx_block SQRT NVEC nrpbin rupp_sqr x1pos y1pos z1pos second j s) ! m =
        npairs s ! m + of_nat (count_bin nrpbin rupp_sqr m (lane_r2s NVEC x1pos y1pos z1pos second j))"
proof -
  let ?r2 = "lane_r2s NVEC x1pos y1pos z1pos second j"
  let ?max = "rupp_sqr ! (nrpbin - 1)" and ?min = "rupp_sqr ! 0"
  let ?r2' = "map (\<lambda>v. if v < ?max \<and> ?min \<le> v then v else ?max) ?r2"
  let ?res = "avx_kbin_loop NVEC rupp_sqr ?r2' (nrpbin - 1) (map (\<lambda>v. v < ?max) ?r2')
      (AVX_SET_FLOAT NVEC 0) (npairs s)"
  have len: "length ?r2' = NVEC"
    by (simp add: lane_r2s_def)
  have none: "count_bin nrpbin rupp_sqr m ?r2 = 0"
    if "\<forall>v \<in> set ?r2. \<not> (v < ?max \<and> ?min \<le> v)"
  proof -
    have "bin_of nrpbin rupp_sqr v \<noteq> Some m" if "v \<in> set ?r2" for v
      using that \<open>\<forall>v \<in> set ?r2. \<not> (v < ?max \<and> ?min \<le> v)\<close>
      by (auto simp: bin_of_def)
    then show ?thesis
      by (simp add: count_bin_def filter_empty_conv)
  qed
  have cnt: "length (filter (\<lambda>v. 1 \<le> m \<and> m \<le> nrpbin - 1 \<and> rupp_sqr ! (m - 1) \<le> v
        \<and> v < rupp_sqr ! m) ?r2') = count_bin nrpbin rupp_sqr m ?r2"
  proof -
    have "(1 \<le> m \<and> m \<le> nrpbin - 1 \<and> rupp_sqr ! (m - 1) \<le> (if v < ?max \<and> ?min \<le> v then v else ?max)
          \<and> (if v < ?max \<and> ?min \<le> v then v else ?max) < rupp_sqr ! m) =
        (bin_of nrpbin rupp_sqr v = Some m)" for v
    proof (cases "v < ?max \<and> ?min \<le> v")
      case True
      then show ?thesis
        by (simp add: bin_of_sorted_iff [OF sorted])
    next
      case False
      then have "bin_of nrpbin rupp_sqr v = None"
        by (auto simp: bin_of_def)
      moreover have "\<not> ?max < rupp_sqr ! m" if "m \<le> nrpbin - 1"
        using sorted [of m "nrpbin - 1"] that by simp
      ultimately show ?thesis
        using False by auto
    qed
    then show ?thesis
      by (simp add: count_bin_def filter_map comp_def)
  qed
  show "length (npairs (avx_block SQRT NVEC nrpbin rupp_sqr x1pos y1pos z1pos second j s))
      = length (npairs s)"
    using avx_kbin_loop_length [OF len, of rupp_sqr "nrpbin - 1" "AVX_SET_FLOAT NVEC 0" "npairs s"]
    unfolding avx_block_unfold Let_def by (simp del: avx_kbin_loop.simps One_nat_def)
  show "npairs (avx_block SQRT NVEC nrpbin rupp_sqr x1pos y1pos z1pos second j s) ! m =
        npairs s ! m + of_nat (count_bin nrpbin rupp_sqr m ?r2)"
    if m: "m < length (npairs s)"
  proof (cases "\<forall>v \<in> set ?r2. \<not> (v < ?max \<and> ?min \<le> v)")
    case True
    with none show ?thesis
      by (auto simp: avx_block_unfold Let_def simp del: avx_kbin_loop.simps)
  next
    case False
    then have 1: "\<not> (\<forall>v \<in> set ?r2. \<not> v < ?max)" by auto
    have "npairs (avx_block SQRT NVEC nrpbin rupp_sqr x1pos y1pos z1pos second j s) = fst ?res"
      unfolding avx_block_unfold Let_def if_not_P [OF 1] if_not_P [OF False] by simp
    with avx_kbin_loop_npairs [OF len sorted m, where m_rpbin = "AVX_SET_FLOAT NVEC 0"] cnt
    show ?thesis by simp
  qed
qed

subsection \<open>The vector loop with its scalar remainder\<close>

lemma lane_r2s_upt:
  "lane_r2s NVEC x1pos y1pos z1pos second j =
     map (\<lambda>l. sqr_dist x1pos y1pos z1pos (x second ! l) (y second ! l) (z second ! l)) [j..<j + NVEC]"
  by (simp add: lane_r2s_def list_eq_iff_nth_eq)

lemma avx_row_npairs:
  assumes sorted: "\<And>i j. i \<le> j \<Longrightarrow> j \<le> nrpbin - 1 \<Longrightarrow> rupp_sqr ! i \<le> rupp_sqr ! j"
  defines "d \<equiv> \<lambda>x1pos y1pos z1pos second l.
      sqr_dist x1pos y1pos z1pos (x second ! l) (y second ! l) (z second ! l)"
  shows "length (npairs (case avx_j_loop SQRT NVEC nrpbin rupp_sqr x1pos y1pos z1pos second j s of
            (j', s') \<Rightarrow> fold (scalar_pair SQRT nrpbin rupp_sqr x1pos y1pos z1pos second)
                          [j'..<nelements second] s')) = length (npairs s)
    \<and> (m < length (npairs s) \<longrightarrow>
        npairs (case avx_j_loop SQRT NVEC nrpbin rupp_sqr x1pos y1pos z1pos second j s of
            (j', s') \<Rightarrow> fold (scalar_pair SQRT nrpbin rupp_sqr x1pos y1pos z1pos second)
                          [j'..<nelements second] s') ! m =
          npairs s ! m + of_nat (count_bin nrpbin rupp_sqr m
              (map (d x1pos y1pos z1pos second) [j..<nelements second])))"
  using sorted
proof (induction SQRT NVEC nrpbin rupp_sqr x1pos y1pos z1pos second j s rule: avx_j_loop.induct)
  case (1 SQRT NVEC nrpbin rupp_sqr x1pos y1pos z1pos second j s)
  let ?n = "nelements second"
  have pair: "scalar_pair SQRT nrpbin rupp_sqr x1pos y1pos z1pos second =
      (\<lambda>l. bin_r2 SQRT nrpbin rupp_sqr (d x1pos y1pos z1pos second l))"
    by (rule ext)+ (simp add: scalar_pair_def d_def)
  show ?case
  proof (cases "0 < NVEC \<and> j + NVEC \<le> ?n")
    case False
    have "avx_j_loop SQRT NVEC nrpbin rupp_sqr x1pos y1pos z1pos second j s = (j, s)"
      by (subst avx_j_loop.simps) (simp only: if_not_P [OF False])
    then show ?thesis
      by (simp add: pair fold_map [symmetric, unfolded comp_def] npairs_fold_bin_r2
          flip: fold_map)
  next
    case True
    let ?s1 = "avx_block SQRT NVEC nrpbin rupp_sqr x1pos y1pos z1pos second j s"
    have step: "avx_j_loop SQRT NVEC nrpbin rupp_sqr x1pos y1pos z1pos second j s =
        avx_j_loop SQRT NVEC nrpbin rupp_sqr x1pos y1pos z1pos second (j + NVEC) ?s1"
      by (subst avx_j_loop.simps) (simp only: if_P [OF True])
    note blk = avx_block_npairs [OF "1.prems", where SQRT = SQRT and NVEC = NVEC and ?x1pos = x1pos
        and ?y1pos = y1pos and ?z1pos = z1pos and second = second and j = j and s = s]
    note ih = "1.IH" [OF True "1.prems"]
    have split: "[j..<?n] = [j..<j + NVEC] @ [j + NVEC..<?n]"
      using True upt_add_eq_append [of j "j + NVEC" "?n - j - NVEC"] by simp
    have cnt: "count_bin nrpbin rupp_sqr m (map (d x1pos y1pos z1pos second) [j..<?n]) =
        count_bin nrpbin rupp_sqr m (lane_r2s NVEC x1pos y1pos z1pos second j)
        + count_bin nrpbin rupp_sqr m (map (d x1pos y1pos z1pos second) [j + NVEC..<?n])"
      by (simp add: split lane_r2s_upt d_def)
    from ih blk show ?thesis
      by (simp add: step cnt algebra_simps)
  qed
qed

lemma avx_kernel_counts:
  assumes sorted: "\<And>i j. i \<le> j \<Longrightarrow> j \<le> nrpbin - 1 \<Longrightarrow> rupp_sqr ! i \<le> rupp_sqr ! j"
  shows "length (npairs (avx_kernel SQRT NVEC nrpbin rupp_sqr first second s)) = length (npairs s)"
    and "m < length (npairs s) \<Longrightarrow>
      npairs (avx_kernel SQRT NVEC nrpbin rupp_sqr first second s) ! m =
        npairs s ! m + of_nat (count_bin nrpbin rupp_sqr m (cell_r2s first second))"
proof -
  let ?row = "\<lambda>i s. case avx_j_loop SQRT NVEC nrpbin rupp_sqr (x first ! i) (y first ! i) (z first ! i)
        second 0 s of
      (j', s') \<Rightarrow> fold (scalar_pair SQRT nrpbin rupp_sqr (x first ! i) (y first ! i) (z first ! i) second)
                    [j'..<nelements second] s'"
  let ?d = "\<lambda>i. map (\<lambda>j. sqr_dist (x first ! i) (y first ! i) (z first ! i)
      (x second ! j) (y second ! j) (z second ! j)) [0..<nelements second]"
  note row = avx_row_npairs [OF sorted, where SQRT = SQRT and NVEC = NVEC and second = second
      and j = 0 and m = m]
  have k: "avx_kernel SQRT NVEC nrpbin rupp_sqr first second s = fold ?row [0..<nelements first] s"
    by (simp add: avx_kernel_def Let_def)
  have "length (npairs (fold ?row is s)) = length (npairs s)
      \<and> (m < length (npairs s) \<longrightarrow> npairs (fold ?row is s) ! m =
          npairs s ! m + of_nat (count_bin nrpbin rupp_sqr m (concat (map ?d is))))" for "is"
  proof (induction "is" arbitrary: s)
    case Nil
    show ?case by simp
  next
    case (Cons i "is")
    from row [where ?x1pos = "x first ! i" and ?y1pos = "y first ! i" and ?z1pos = "z first ! i"
        and s = s] Cons [of "?row i s"]
    show ?case
      by (simp add: algebra_simps)
  qed
  from this [of "[0..<nelements first]"]
  show "length (npairs (avx_kernel SQRT NVEC nrpbin rupp_sqr first second s)) = length (npairs s)"
    and "m < length (npairs s) \<Longrightarrow>
      npairs (avx_kernel SQRT NVEC nrpbin rupp_sqr first second s) ! m =
        npairs s ! m + of_nat (count_bin nrpbin rupp_sqr m (cell_r2s first second))"
    by (simp_all add: k cell_r2s_def)
qed

subsection \<open>Either kernel counts its pairs when the edges are ordered\<close>

lemma sqr_table_mono:
  assumes "bin_edges nrpbin rupp" and "i \<le> j" and "j \<le> nrpbin - 1"
  shows "rupp_sqr_of nrpbin rupp ! i \<le> rupp_sqr_of nrpbin rupp ! j"
proof -
  from assms have "length rupp = nrpbin" "2 \<le> nrpbin" "0 \<le> rupp ! 0" "sorted_wrt (<) rupp"
    by (simp_all add: bin_edges_def)
  with assms(2,3) have "j < length rupp" by simp
  from sqr_edges_mono [OF \<open>sorted_wrt (<) rupp\<close> \<open>0 \<le> rupp ! 0\<close> assms(2) this]
  show ?thesis
    using assms(2) \<open>j < length rupp\<close> \<open>length rupp = nrpbin\<close> by simp
qed

lemma pair_kernel_counts:
  assumes "bin_edges nrpbin rupp"
  shows "length (npairs (pair_kernel SQRT build nrpbin (rupp_sqr_of nrpbin rupp) first second s))
      = length (npairs s)"
    and "k < length (npairs s) \<Longrightarrow>
      npairs (pair_kernel SQRT build nrpbin (rupp_sqr_of nrpbin rupp) first second s) ! k =
        npairs s ! k + of_nat (count_bin nrpbin (rupp_sqr_of nrpbin rupp) k (cell_r2s first second))"
proof -
  note mono = sqr_table_mono [OF assms]
  show "length (npairs (pair_kernel SQRT build nrpbin (rupp_sqr_of nrpbin rupp) first second s))
      = length (npairs s)"
    by (cases build) (simp_all add: pair_kernel_def scalar_kernel_counts avx_kernel_counts [OF mono])
  show "k < length (npairs s) \<Longrightarrow>
      npairs (pair_kernel SQRT build nrpbin (rupp_sqr_of nrpbin rupp) first second s) ! k =
        npairs s ! k + of_nat (count_bin nrpbin (rupp_sqr_of nrpbin rupp) k (cell_r2s first second))"
    by (cases build) (simp_all add: pair_kernel_def scalar_kernel_counts avx_kernel_counts [OF mono])
qed

subsection \<open>The reduction over the threads\<close>

lemma fold_add_row:
  fixes np row :: "'a::comm_monoid_add list"
  assumes "length np = n"
  shows "length (fold (\<lambda>j np. np[j := np ! j + row ! j]) [0..<n] np) = n"
    and "j < n \<Longrightarrow> fold (\<lambda>j np. np[j := np ! j + row ! j]) [0..<n] np ! j = np ! j + row ! j"
proof -
  have "length (fold (\<lambda>j np. np[j := np ! j + row ! j]) [0..<m] np) = length np
      \<and> (\<forall>j < length np. fold (\<lambda>j np. np[j := np ! j + row ! j]) [0..<m] np ! j =
            (if j < m then np ! j + row ! j else np ! j))" for m
    by (induction m) (auto simp: nth_list_update less_Suc_eq)
  from this [of n] assms
  show "length (fold (\<lambda>j np. np[j := np ! j + row ! j]) [0..<n] np) = n"
    and "j < n \<Longrightarrow> fold (\<lambda>j np. np[j := np ! j + row ! j]) [0..<n] np ! j = np ! j + row ! j"
    by simp_all
qed

lemma fold_add_rows:
  fixes np :: "'a::comm_monoid_add list"
  assumes "length np = n"
  shows "length (fold (\<lambda>i np. fold (\<lambda>j np. np[j := np ! j + rows i ! j]) [0..<n] np) [0..<t] np) = n"
    and "j < n \<Longrightarrow>
      fold (\<lambda>i np. fold (\<lambda>j np. np[j := np ! j + rows i ! j]) [0..<n] np) [0..<t] np ! j =
        np ! j + (\<Sum>i<t. rows i ! j)"
proof -
  have "length (fold (\<lambda>i np. fold (\<lambda>j np. np[j := np ! j + rows i ! j]) [0..<n] np) [0..<t] np) = n
      \<and> (j < n \<longrightarrow>
        fold (\<lambda>i np. fold (\<lambda>j np. np[j := np ! j + rows i ! j]) [0..<n] np) [0..<t] np ! j =
          np ! j + (\<Sum>i<t. rows i ! j))"
  proof (induction t)
    case 0
    with assms show ?case by simp
  next
    case (Suc t)
    then show ?case
      by (simp add: fold_add_row add.assoc)
  qed
  then show "length (fold (\<lambda>i np. fold (\<lambda>j np. np[j := np ! j + rows i ! j]) [0..<n] np) [0..<t] np) = n"
    and "j < n \<Longrightarrow>
      fold (\<lambda>i np. fold (\<lambda>j np. np[j := np ! j + rows i ! j]) [0..<n] np) [0..<t] np ! j =
        np ! j + (\<Sum>i<t. rows i ! j)"
    by simp_all
qed

lemma reduce_threads_npairs:
  "length (npairs (reduce_threads numthreads nrpbin all)) = nrpbin"
  "j < nrpbin \<Longrightarrow> npairs (reduce_threads numthreads nrpbin all) ! j = (\<Sum>i<numthreads. npairs (all ! i) ! j)"
  using fold_add_rows [where np = "replicate nrpbin (0 :: 32 word)" and n = nrpbin
      and rows = "\<lambda>i. npairs (all ! i)" and t = numthreads]
  by (simp_all add: reduce_threads_def)

subsection \<open>The run with threads\<close>

lemma owner_total:
  fixes owner :: "int \<Rightarrow> nat" and T :: nat
  assumes "\<forall>c. owner c < T"
  shows "(\<Sum>tid<T. count_list (filter (\<lambda>icell. owner icell = tid) cells) e) = count_list cells e"
proof -
  have "(\<Sum>tid<T. count_list (filter (\<lambda>icell. owner icell = tid) cells) e) =
      (\<Sum>tid<T. if tid = owner e then count_list cells e else 0)"
    by (intro sum.cong refl) (auto simp: count_list_filter)
  also have "\<dots> = (if owner e \<in> {..<T} then count_list cells e else 0)"
    by (rule sum.delta) simp
  also have "\<dots> = count_list cells e"
    using assms by simp
  finally show ?thesis .
qed

lemma run_threads:
  fixes kern :: "cellarray \<Rightarrow> cellarray \<Rightarrow> counters \<Rightarrow> counters"
    and xmin xmax ymin ymax zmin zmax rmax :: DOUBLE and X1 Y1 Z1 X2 Y2 Z2 :: "DOUBLE list"
    and ND1 ND2 :: nat and bf :: int and owner :: "int \<Rightarrow> nat" and T :: nat
  assumes len: "\<And>first second s. length (npairs (kern first second s)) = length (npairs s)"
    and cnt: "\<And>first second s k. k < length (npairs s) \<Longrightarrow>
        npairs (kern first second s) ! k =
          npairs s ! k + of_nat (count_bin nrpbin (rupp_sqr_of nrpbin rupp) k (cell_r2s first second))"
    and own: "\<forall>c. owner c < T"
  defines "nx \<equiv> mesh_size xmin xmax rmax bf" and "ny \<equiv> mesh_size ymin ymax rmax bf"
    and "nz \<equiv> mesh_size zmin zmax rmax bf"
  defines "l1 \<equiv> map (lattice_cell ND1 X1 Y1 Z1
                      (mesh_index xmin xmax ymin ymax zmin zmax nx ny nz X1 Y1 Z1)) [0..nx * ny * nz - 1]"
    and "l2 \<equiv> map (lattice_cell ND2 X2 Y2 Z2
                      (mesh_index xmin xmax ymin ymax zmin zmax nx ny nz X2 Y2 Z2)) [0..nx * ny * nz - 1]"
  defines "threads \<equiv> map (\<lambda>tid. fold_opt (cell_body kern bf nx ny nz l1 l2)
                 (filter (\<lambda>icell. owner icell = tid) [0..nx * ny * nz - 1])
                 \<lparr>npairs = replicate nrpbin 0, rpavg = replicate nrpbin 0\<rparr>) [0..<T]"
  shows "None \<notin> set threads"
    and "length (npairs (reduce_threads T nrpbin (map the threads))) = nrpbin"
    and "\<forall>k<nrpbin. npairs (reduce_threads T nrpbin (map the threads)) ! k =
          of_nat (pairs_in_bin bf xmin xmax ymin ymax zmin zmax rmax nrpbin rupp
                    ND1 X1 Y1 Z1 ND2 X2 Y2 Z2 k)"
proof -
  let ?s0 = "\<lparr>npairs = replicate nrpbin (0 :: 32 word), rpavg = replicate nrpbin (0 :: DOUBLE)\<rparr>"
  let ?cells = "\<lambda>tid. filter (\<lambda>icell. owner icell = tid) [0..nx * ny * nz - 1]"
  let ?idx1 = "mesh_index xmin xmax ymin ymax zmin zmax nx ny nz X1 Y1 Z1"
  let ?g = "\<lambda>k i j.
        (if \<bar>mesh_coord xmin xmax nx (X1 ! i) - mesh_coord xmin xmax nx (X2 ! j)\<bar> \<le> bf
          \<and> \<bar>mesh_coord ymin ymax ny (Y1 ! i) - mesh_coord ymin ymax ny (Y2 ! j)\<bar> \<le> bf
          \<and> \<bar>mesh_coord zmin zmax nz (Z1 ! i) - mesh_coord zmin zmax nz (Z2 ! j)\<bar> \<le> bf
         then hit nrpbin (rupp_sqr_of nrpbin rupp) k
                (sqr_dist (X1 ! i) (Y1 ! i) (Z1 ! i) (X2 ! j) (Y2 ! j) (Z2 ! j))
         else 0)"
  have pos: "0 < nx" "0 < ny" "0 < nz"
    by (simp_all add: nx_def ny_def nz_def)
  have each: "\<exists>s'. fold_opt (cell_body kern bf nx ny nz l1 l2) (?cells tid) ?s0 = Some s'
      \<and> length (npairs s') = nrpbin
      \<and> (k < nrpbin \<longrightarrow> npairs s' ! k =
            of_nat (\<Sum>i<ND1. \<Sum>j<ND2. count_list (?cells tid) (?idx1 i) * ?g k i j))" for tid k
  proof (cases "k < nrpbin")
    case True
    have cells: "\<forall>icell \<in> set (?cells tid). 0 \<le> icell \<and> icell < nx * ny * nz" by simp
    from True have k': "k < length (npairs ?s0)" by simp
    from run_cells_counts [of kern k nrpbin "rupp_sqr_of nrpbin rupp", OF len cnt pos cells k',
        where xmin = xmin and xmax = xmax and ymin = ymin and ymax = ymax and zmin = zmin
          and zmax = zmax and ?X1.0 = X1 and ?Y1.0 = Y1 and ?Z1.0 = Z1 and ?np1.0 = ND1
          and ?X2.0 = X2 and ?Y2.0 = Y2 and ?Z2.0 = Z2 and ?np2.0 = ND2 and bf = bf]
    show ?thesis
      using True by (simp add: l1_def l2_def)
  next
    case False
    have cells: "\<forall>icell \<in> set (?cells tid). 0 \<le> icell" by simp
    from cells_Some [OF pos(2,3) this, of kern bf nx l1 l2 ?s0]
      fold_kernel_cells(1) [of kern, OF len cnt]
    show ?thesis
      using False by simp
  qed
  define st where "st tid = the (fold_opt (cell_body kern bf nx ny nz l1 l2) (?cells tid) ?s0)" for tid
  have st: "fold_opt (cell_body kern bf nx ny nz l1 l2) (?cells tid) ?s0 = Some (st tid)"
    and stl: "length (npairs (st tid)) = nrpbin"
    and stk: "k < nrpbin \<Longrightarrow> npairs (st tid) ! k =
            of_nat (\<Sum>i<ND1. \<Sum>j<ND2. count_list (?cells tid) (?idx1 i) * ?g k i j)" for tid k
    using each [of tid k] by (auto simp: st_def)
  show "None \<notin> set threads"
    by (auto simp: threads_def st)
  have the: "map the threads ! tid = st tid" if "tid < T" for tid
    using that by (simp add: threads_def st)
  show "length (npairs (reduce_threads T nrpbin (map the threads))) = nrpbin"
    by (rule reduce_threads_npairs)
  show "\<forall>k<nrpbin. npairs (reduce_threads T nrpbin (map the threads)) ! k =
          of_nat (pairs_in_bin bf xmin xmax ymin ymax zmin zmax rmax nrpbin rupp
                    ND1 X1 Y1 Z1 ND2 X2 Y2 Z2 k)"
  proof (intro allI impI)
    fix k assume k: "k < nrpbin"
    have "npairs (reduce_threads T nrpbin (map the threads)) ! k =
        (\<Sum>tid<T. npairs (map the threads ! tid) ! k)"
      using k by (rule reduce_threads_npairs)
    also have "\<dots> = (\<Sum>tid<T. of_nat (\<Sum>i<ND1. \<Sum>j<ND2. count_list (?cells tid) (?idx1 i) * ?g k i j))"
      by (intro sum.cong refl) (simp add: the stk [OF k])
    also have "\<dots> = of_nat (\<Sum>tid<T. \<Sum>i<ND1. \<Sum>j<ND2. count_list (?cells tid) (?idx1 i) * ?g k i j)"
      by simp
    also have "(\<Sum>tid<T. \<Sum>i<ND1. \<Sum>j<ND2. count_list (?cells tid) (?idx1 i) * ?g k i j) =
        (\<Sum>i<ND1. \<Sum>j<ND2. (\<Sum>tid<T. count_list (?cells tid) (?idx1 i)) * ?g k i j)"
    proof -
      have "(\<Sum>tid<T. \<Sum>i<ND1. \<Sum>j<ND2. count_list (?cells tid) (?idx1 i) * ?g k i j) =
          (\<Sum>i<ND1. \<Sum>tid<T. \<Sum>j<ND2. count_list (?cells tid) (?idx1 i) * ?g k i j)"
        by (rule sum.swap)
      also have "\<dots> = (\<Sum>i<ND1. \<Sum>j<ND2. \<Sum>tid<T. count_list (?cells tid) (?idx1 i) * ?g k i j)"
        by (rule sum.cong [OF refl]) (rule sum.swap)
      also have "\<dots> = (\<Sum>i<ND1. \<Sum>j<ND2. (\<Sum>tid<T. count_list (?cells tid) (?idx1 i)) * ?g k i j)"
        by (simp only: sum_distrib_right)
      finally show ?thesis .
    qed
    also have "\<dots> = (\<Sum>i<ND1. \<Sum>j<ND2. ?g k i j)"
    proof (intro sum.cong refl)
      fix i j
      have "count_list [0..nx * ny * nz - 1] (?idx1 i) = 1"
        using mesh_index_bounds [OF pos, of xmin xmax ymin ymax zmin zmax X1 Y1 Z1 i]
        by (simp add: count_list_upto)
      then show "(\<Sum>tid<T. count_list (?cells tid) (?idx1 i)) * ?g k i j = ?g k i j"
        by (simp add: owner_total [OF own])
    qed
    also have "\<dots> = pairs_in_bin bf xmin xmax ymin ymax zmin zmax rmax nrpbin rupp
        ND1 X1 Y1 Z1 ND2 X2 Y2 Z2 k"
      unfolding pairs_in_bin_def count_pairs_sum
      by (intro sum.cong refl) (simp add: near_cells_def hit_def nx_def ny_def nz_def)
    finally show "npairs (reduce_threads T nrpbin (map the threads)) ! k =
        of_nat (pairs_in_bin bf xmin xmax ymin ymax zmin zmax rmax nrpbin rupp
          ND1 X1 Y1 Z1 ND2 X2 Y2 Z2 k)" .
  qed
qed

lemma countpairs_nopbc_omp_result:
  fixes xmin xmax ymin ymax zmin zmax rpmax :: DOUBLE and X1 Y1 Z1 X2 Y2 Z2 :: "DOUBLE list"
    and ND1 ND2 :: nat and owner :: "int \<Rightarrow> nat"
  assumes len: "\<And>first second s.
        length (npairs (pair_kernel SQRT build nrpbin (rupp_sqr_of nrpbin rupp) first second s)) =
          length (npairs s)"
    and cnt: "\<And>first second s k. k < length (npairs s) \<Longrightarrow>
        npairs (pair_kernel SQRT build nrpbin (rupp_sqr_of nrpbin rupp) first second s) ! k =
          npairs s ! k + of_nat (count_bin nrpbin (rupp_sqr_of nrpbin rupp) k (cell_r2s first second))"
    and own: "\<forall>c. owner c < nat numthreads"
  shows "\<exists>r. countpairs_nopbc_omp SQRT build owner ND1 X1 Y1 Z1 ND2 X2 Y2 Z2
            xmin xmax ymin ymax zmin zmax autocorr rpmax numthreads nrpbin rupp paircounts = Some r
    \<and> length (histogram r) = length paircounts
    \<and> (\<forall>k. histogram r ! k =
          (if 1 \<le> k \<and> k < nrpbin \<and> k < length paircounts
           then of_nat (if autocorr = 0
                        then pairs_in_bin (if numthreads > 1 then 1 else 2)
                               xmin xmax ymin ymax zmin zmax rpmax nrpbin rupp
                               ND1 X1 Y1 Z1 ND2 X2 Y2 Z2 k
                        else pairs_in_bin (if numthreads > 1 then 1 else 2)
                               xmin xmax ymin ymax zmin zmax rpmax nrpbin rupp
                               ND1 X1 Y1 Z1 ND1 X1 Y1 Z1 k)
           else paircounts ! k))"
proof -
  define bf :: int where "bf = (if numthreads > 1 then 1 else 2)"
  note rt = run_threads [of "pair_kernel SQRT build nrpbin (rupp_sqr_of nrpbin rupp)" nrpbin rupp
      owner "nat numthreads", OF len cnt own, where bf = bf and rmax = rpmax and xmin = xmin
      and xmax = xmax and ymin = ymin and ymax = ymax and zmin = zmin and zmax = zmax
      and ?X1.0 = X1 and ?Y1.0 = Y1 and ?Z1.0 = Z1 and ?ND1.0 = ND1]
  have bf: "(if numthreads > 1 then (if autocorr = 1 then 1 else 1) else (if autocorr = 1 then 2 else (2::int))) = bf"
    by (simp add: bf_def)
  show ?thesis
  proof (cases "autocorr = 0")
    case True
    note r = rt [where ?X2.0 = X2 and ?Y2.0 = Y2 and ?Z2.0 = Z2 and ?ND2.0 = ND2]
    show ?thesis
      unfolding countpairs_nopbc_omp_def gridlink_nopbc_def Let_def bf bf_def [symmetric]
      using True r by (simp add: histogram_report_bins_nth)
  next
    case False
    note r = rt [where ?X2.0 = X1 and ?Y2.0 = Y1 and ?Z2.0 = Z1 and ?ND2.0 = ND1]
    show ?thesis
      unfolding countpairs_nopbc_omp_def gridlink_nopbc_def Let_def bf bf_def [symmetric]
      using False r by (simp add: histogram_report_bins_nth)
  qed
qed

section \<open>Points closer than \<open>rmax\<close> lie in neighbouring cells\<close>

lemma clamp_diff:
  fixes u v n bf :: int
  assumes "\<bar>u - v\<bar> \<le> bf"
  shows "\<bar>max 0 (min (n - 1) u) - max 0 (min (n - 1) v)\<bar> \<le> bf"
  using assms by (auto simp: max_def min_def)

lemma floor_diff:
  fixes a b :: real and bf :: int
  assumes "\<bar>a - b\<bar> < of_int bf"
  shows "\<bar>\<lfloor>a\<rfloor> - \<lfloor>b\<rfloor>\<bar> \<le> bf"
proof -
  have "a < of_int (\<lfloor>b\<rfloor> + 1 + bf)" and "b < of_int (\<lfloor>a\<rfloor> + 1 + bf)"
    using assms real_of_int_floor_add_one_gt [of a] real_of_int_floor_add_one_gt [of b]
    unfolding of_int_add of_int_1 by linarith+
  then have "\<lfloor>a\<rfloor> < \<lfloor>b\<rfloor> + 1 + bf" and "\<lfloor>b\<rfloor> < \<lfloor>a\<rfloor> + 1 + bf"
    by (simp_all only: floor_less_iff)
  then show ?thesis by simp
qed

lemma near_axis:
  fixes lo hi rmax p q :: real and bf :: int
  assumes rmax: "0 < rmax" and bf: "1 \<le> bf" and close: "\<bar>p - q\<bar> < rmax"
  shows "\<bar>mesh_coord lo hi (mesh_size lo hi rmax bf) p - mesh_coord lo hi (mesh_size lo hi rmax bf) q\<bar> \<le> bf"
proof (cases "mesh_size lo hi rmax bf = 1")
  case True
  then show ?thesis
    using bf by (simp add: mesh_coord_def Let_def)
next
  case False
  define n where "n = mesh_size lo hi rmax bf"
  define w where "w = (hi - lo) / of_int n"
  define f where "f = \<lfloor>(hi - lo) * of_int bf / rmax\<rfloor>"
  have "n = max 1 f"
    by (simp add: n_def mesh_size_def f_def)
  moreover from False have "n \<noteq> 1" by (simp add: n_def)
  ultimately have "n = f" and n2: "2 \<le> n"
    by (simp_all add: max_def split: if_splits)
  then have n: "n = \<lfloor>(hi - lo) * of_int bf / rmax\<rfloor>"
    by (simp add: f_def)
  have "of_int n \<le> (hi - lo) * of_int bf / rmax"
    unfolding n by (rule of_int_floor_le)
  with rmax have le: "of_int n * rmax \<le> (hi - lo) * of_int bf"
    by (simp add: pos_le_divide_eq)
  from n2 have npos: "(0::real) < of_int n" by simp
  with rmax have "0 < of_int n * rmax" by simp
  with le have "0 < (hi - lo) * of_int bf" by simp
  with bf have L: "0 < hi - lo"
    by (simp add: zero_less_mult_iff)
  with npos have wpos: "0 < w"
    by (simp add: w_def)
  have "rmax \<le> of_int bf * w"
    using le npos by (simp add: w_def pos_le_divide_eq mult.commute)
  with close have "\<bar>p - q\<bar> < of_int bf * w" by simp
  with wpos have "\<bar>p - q\<bar> / w < of_int bf"
    by (simp add: pos_divide_less_eq)
  moreover have "\<bar>(p - lo) / w - (q - lo) / w\<bar> = \<bar>p - q\<bar> / w"
    using wpos by (simp add: diff_divide_distrib [symmetric] abs_divide)
  ultimately have "\<bar>(p - lo) / w - (q - lo) / w\<bar> < of_int bf" by simp
  then have "\<bar>\<lfloor>(p - lo) / w\<rfloor> - \<lfloor>(q - lo) / w\<rfloor>\<bar> \<le> bf"
    by (rule floor_diff)
  then have "\<bar>max 0 (min (n - 1) \<lfloor>(p - lo) / w\<rfloor>) - max 0 (min (n - 1) \<lfloor>(q - lo) / w\<rfloor>)\<bar> \<le> bf"
    by (rule clamp_diff)
  then show ?thesis
    by (simp add: mesh_coord_def Let_def n_def [symmetric] w_def [symmetric])
qed

lemma sqr_dist_axis:
  assumes "sqr_dist a b c a' b' c' < r * r" and "0 \<le> r"
  shows "\<bar>a - a'\<bar> < r" and "\<bar>b - b'\<bar> < r" and "\<bar>c - c'\<bar> < r"
proof -
  have sq: "\<bar>u\<bar> < r" if "u * u < r * r" for u :: real
  proof -
    from that have "\<bar>u\<bar>\<^sup>2 < r\<^sup>2" by (simp add: power2_eq_square)
    then show ?thesis using assms(2) by (rule power2_less_imp_less)
  qed
  have nn: "0 \<le> u * u" for u :: real by simp
  from assms(1) have s: "(a - a') * (a - a') + (b - b') * (b - b') + (c - c') * (c - c') < r * r"
    by (simp add: sqr_dist_def Let_def)
  from s nn [of "b - b'"] nn [of "c - c'"] have "(a - a') * (a - a') < r * r" by linarith
  then show "\<bar>a - a'\<bar> < r" by (rule sq)
  from s nn [of "a - a'"] nn [of "c - c'"] have "(b - b') * (b - b') < r * r" by linarith
  then show "\<bar>b - b'\<bar> < r" by (rule sq)
  from s nn [of "a - a'"] nn [of "b - b'"] have "(c - c') * (c - c') < r * r" by linarith
  then show "\<bar>c - c'\<bar> < r" by (rule sq)
qed

lemma near_cells_close:
  assumes "0 < rmax" and "1 \<le> bf" and "sqr_dist a b c a' b' c' < rmax * rmax"
  shows "near_cells bf xmin xmax ymin ymax zmin zmax rmax a b c a' b' c'"
proof -
  from assms(1) have "0 \<le> rmax" by simp
  from sqr_dist_axis [OF assms(3) this] show ?thesis
    unfolding near_cells_def by (intro conjI near_axis assms)
qed

lemma count_pairs_cong:
  assumes "\<And>i j. i < n \<Longrightarrow> j < m \<Longrightarrow> P i j = Q i j"
  shows "count_pairs P n m = count_pairs Q n m"
  unfolding count_pairs_sum using assms by (intro sum.cong refl) simp

text \<open>
  When the last edge is at most \<open>rmax\<close>, every pair that the range filter accepts is in
  neighbouring cells: the cells lose no pair, whatever the refine factor.
\<close>

lemma pairs_in_bin_all:
  assumes "1 \<le> nrpbin" and "0 \<le> rupp ! (nrpbin - 1)" and "rupp ! (nrpbin - 1) \<le> rmax"
    and "0 < rmax" and "1 \<le> bf"
  shows "pairs_in_bin bf xmin xmax ymin ymax zmin zmax rmax nrpbin rupp ND1 X1 Y1 Z1 ND2 X2 Y2 Z2 k =
    count_pairs (\<lambda>i j. bin_of nrpbin (rupp_sqr_of nrpbin rupp)
        (sqr_dist (X1 ! i) (Y1 ! i) (Z1 ! i) (X2 ! j) (Y2 ! j) (Z2 ! j)) = Some k) ND1 ND2"
  unfolding pairs_in_bin_def
proof (rule count_pairs_cong)
  fix i j
  let ?d = "sqr_dist (X1 ! i) (Y1 ! i) (Z1 ! i) (X2 ! j) (Y2 ! j) (Z2 ! j)"
  have "near_cells bf xmin xmax ymin ymax zmin zmax rmax
      (X1 ! i) (Y1 ! i) (Z1 ! i) (X2 ! j) (Y2 ! j) (Z2 ! j)"
    if "bin_of nrpbin (rupp_sqr_of nrpbin rupp) ?d = Some k"
  proof -
    from that have "?d < rupp_sqr_of nrpbin rupp ! (nrpbin - 1)"
      by (auto simp: bin_of_def split: if_splits)
    with assms(1) have "?d < rupp ! (nrpbin - 1) * rupp ! (nrpbin - 1)" by simp
    also have "\<dots> \<le> rmax * rmax"
      using assms(2,3) by (intro mult_mono) simp_all
    finally show ?thesis
      by (intro near_cells_close assms)
  qed
  then show "(near_cells bf xmin xmax ymin ymax zmin zmax rmax
        (X1 ! i) (Y1 ! i) (Z1 ! i) (X2 ! j) (Y2 ! j) (Z2 ! j)
      \<and> bin_of nrpbin (rupp_sqr_of nrpbin rupp) ?d = Some k) =
    (bin_of nrpbin (rupp_sqr_of nrpbin rupp) ?d = Some k)"
    by blast
qed

section \<open>What a run returns\<close>

lemma run_returns:
  assumes "bin_edges nrpbin rupp"
  shows "\<exists>r. countpairs_nopbc SQRT build ND1 X1 Y1 Z1 ND2 X2 Y2 Z2 xmin xmax ymin ymax zmin zmax
            autocorr rpmax nrpbin rupp paircounts = Some r
    \<and> length (histogram r) = length paircounts
    \<and> (\<forall>k. histogram r ! k =
          (if 1 \<le> k \<and> k < nrpbin \<and> k < length paircounts
           then of_nat (pairs_counted 2 xmin xmax ymin ymax zmin zmax rpmax nrpbin rupp
                          ND1 X1 Y1 Z1 ND2 X2 Y2 Z2 autocorr k)
           else paircounts ! k))"
  using countpairs_nopbc_result [of SQRT build nrpbin rupp, OF pair_kernel_counts [OF assms]]
  unfolding pairs_counted_def by blast

lemma run_omp_returns:
  assumes "bin_edges nrpbin rupp" and "\<forall>c. owner c < nat numthreads"
  shows "\<exists>r. countpairs_nopbc_omp SQRT build owner ND1 X1 Y1 Z1 ND2 X2 Y2 Z2
            xmin xmax ymin ymax zmin zmax autocorr rpmax numthreads nrpbin rupp paircounts = Some r
    \<and> length (histogram r) = length paircounts
    \<and> (\<forall>k. histogram r ! k =
          (if 1 \<le> k \<and> k < nrpbin \<and> k < length paircounts
           then of_nat (pairs_counted (if numthreads > 1 then 1 else 2)
                          xmin xmax ymin ymax zmin zmax rpmax nrpbin rupp
                          ND1 X1 Y1 Z1 ND2 X2 Y2 Z2 autocorr k)
           else paircounts ! k))"
  using countpairs_nopbc_omp_result [of SQRT build nrpbin rupp, OF pair_kernel_counts [OF assms(1)] assms(2)]
  unfolding pairs_counted_def by blast

lemma count_pairs_const:
  "count_pairs (\<lambda>i j. True) n m = n * m" "count_pairs (\<lambda>i j. False) n m = 0"
  by (simp_all add: count_pairs_sum)

lemma count_pairs_swap: "count_pairs P n m = count_pairs (\<lambda>j i. P i j) m n"
  unfolding count_pairs_sum by (rule sum.swap)

lemma sqr_dist_commute: "sqr_dist a b c a' b' c' = sqr_dist a' b' c' a b c"
  by (simp add: sqr_dist_def Let_def algebra_simps)

lemma near_cells_commute:
  "near_cells bf xmin xmax ymin ymax zmin zmax rmax a b c a' b' c' =
   near_cells bf xmin xmax ymin ymax zmin zmax rmax a' b' c' a b c"
  by (simp add: near_cells_def abs_minus_commute)

lemma pairs_in_bin_commute:
  "pairs_in_bin bf xmin xmax ymin ymax zmin zmax rmax nrpbin rupp ND1 X1 Y1 Z1 ND2 X2 Y2 Z2 k =
   pairs_in_bin bf xmin xmax ymin ymax zmin zmax rmax nrpbin rupp ND2 X2 Y2 Z2 ND1 X1 Y1 Z1 k"
  unfolding pairs_in_bin_def
  by (subst count_pairs_swap) (simp add: sqr_dist_commute near_cells_commute)

text \<open>Point sets whose points all coincide: every pair has squared distance 0.\<close>

lemma pairs_in_bin_replicate:
  assumes "bin_of nrpbin (rupp_sqr_of nrpbin rupp) 0 = Some k0" and "0 \<le> bf"
  shows "pairs_in_bin bf xmin xmax ymin ymax zmin zmax rmax nrpbin rupp
      n (replicate n a) (replicate n b) (replicate n c) n (replicate n a) (replicate n b) (replicate n c) k =
    (if k = k0 then n * n else 0)"
proof -
  have "count_pairs (\<lambda>i j.
         near_cells bf xmin xmax ymin ymax zmin zmax rmax
           (replicate n a ! i) (replicate n b ! i) (replicate n c ! i)
           (replicate n a ! j) (replicate n b ! j) (replicate n c ! j)
         \<and> bin_of nrpbin (rupp_sqr_of nrpbin rupp)
             (sqr_dist (replicate n a ! i) (replicate n b ! i) (replicate n c ! i)
                (replicate n a ! j) (replicate n b ! j) (replicate n c ! j)) = Some k) n n =
      count_pairs (\<lambda>i j. k = k0) n n"
    using assms by (intro count_pairs_cong) (auto simp: near_cells_def)
  then show ?thesis
    by (cases "k = k0") (simp_all add: pairs_in_bin_def count_pairs_const)
qed

lemma unat_of_nat_32: "unat (of_nat n :: 32 word) = n mod 2 ^ 32"
  by (simp add: unat_of_nat)

text \<open>
  The auto-correlation of the two points \<open>(0, 0, 0)\<close> and \<open>(1, 0, 0)\<close> in the box \<open>[-1, 2]\<^sup>3\<close>
  with the edges 0 and 2, into an array that holds 7 and 0: bin 1 gets the two pairs of
  distance 1 and the two self-pairs.
\<close>

lemma run_two_points:
  "map_option histogram
     (countpairs_nopbc SQRT SCALAR 2 [0, 1] [0, 0] [0, 0] 0 [] [] []
        (- 1) 2 (- 1) 2 (- 1) 2 1 2 2 [0, 2] [7, 0]) = Some [7, 4]"
  by code_simp

section \<open>Totals over the bins\<close>

lemma sum_bins_count_pairs:
  fixes f :: "nat \<Rightarrow> nat \<Rightarrow> nat option"
  assumes "\<And>i j. i < n \<Longrightarrow> j < m \<Longrightarrow> \<exists>k. f i j = Some k \<and> 1 \<le> k \<and> k < K"
  shows "(\<Sum>k = 1..<K. count_pairs (\<lambda>i j. f i j = Some k) n m) = n * m"
proof -
  have one: "(\<Sum>k = 1..<K. if f i j = Some k then 1 else 0) = (1::nat)"
    if "i < n" and "j < m" for i j
  proof -
    from assms [OF that] obtain k0 where k0: "f i j = Some k0" "1 \<le> k0" "k0 < K"
      by blast
    have "(\<Sum>k = 1..<K. if f i j = Some k then 1 else 0) =
        (\<Sum>k = 1..<K. if k = k0 then 1 else (0::nat))"
      using k0 by (intro sum.cong refl) auto
    also have "\<dots> = (if k0 \<in> {1..<K} then 1 else 0)"
      by (rule sum.delta) simp
    finally show ?thesis using k0 by simp
  qed
  have "(\<Sum>k = 1..<K. count_pairs (\<lambda>i j. f i j = Some k) n m) =
      (\<Sum>k = 1..<K. \<Sum>i<n. \<Sum>j<m. if f i j = Some k then 1 else 0)"
    by (simp add: count_pairs_sum)
  also have "\<dots> = (\<Sum>i<n. \<Sum>k = 1..<K. \<Sum>j<m. if f i j = Some k then 1 else 0)"
    by (rule sum.swap)
  also have "\<dots> = (\<Sum>i<n. \<Sum>j<m. \<Sum>k = 1..<K. if f i j = Some k then 1 else 0)"
    by (rule sum.cong [OF refl]) (rule sum.swap)
  also have "\<dots> = (\<Sum>i<n. \<Sum>j<m. 1)"
    by (intro sum.cong refl one) simp_all
  finally show ?thesis by simp
qed

lemma sqr_dist_nonneg: "0 \<le> sqr_dist a b c a' b' c'"
  by (simp add: sqr_dist_def Let_def)

lemma bin_edges_last:
  assumes "bin_edges nrpbin rupp"
  shows "0 < rupp ! (nrpbin - 1)"
proof -
  from assms have s: "sorted_wrt (<) rupp" and "0 < nrpbin - 1" and "nrpbin - 1 < length rupp"
    by (simp_all add: bin_edges_def)
  then have "rupp ! 0 < rupp ! (nrpbin - 1)"
    by (rule sorted_wrt_nth_less)
  with assms show ?thesis by (simp add: bin_edges_def)
qed

text \<open>
  With the last edge at most \<open>rpmax\<close> the cells lose no pair: bin \<open>k\<close> gets every pair whose
  squared distance the scan puts there.
\<close>

lemma pairs_in_bin_edges:
  assumes "bin_edges nrpbin rupp" and "rupp ! (nrpbin - 1) \<le> rmax" and "1 \<le> bf"
  shows "pairs_in_bin bf xmin xmax ymin ymax zmin zmax rmax nrpbin rupp ND1 X1 Y1 Z1 ND2 X2 Y2 Z2 k =
    count_pairs (\<lambda>i j. bin_of nrpbin (rupp_sqr_of nrpbin rupp)
        (sqr_dist (X1 ! i) (Y1 ! i) (Z1 ! i) (X2 ! j) (Y2 ! j) (Z2 ! j)) = Some k) ND1 ND2"
proof -
  from bin_edges_last [OF assms(1)] have last: "0 < rupp ! (nrpbin - 1)" .
  from assms(1) have K: "1 \<le> nrpbin" by (simp add: bin_edges_def)
  from last have nn: "0 \<le> rupp ! (nrpbin - 1)" by simp
  from last assms(2) have pos: "0 < rmax" by simp
  show ?thesis by (rule pairs_in_bin_all [OF K nn assms(2) pos assms(3)])
qed

lemma sum_pairs_in_bin:
  assumes e: "bin_edges nrpbin rupp" and z: "rupp ! 0 = 0" and m: "rupp ! (nrpbin - 1) \<le> rmax"
    and bf: "1 \<le> bf"
    and d: "\<And>i j. i < ND1 \<Longrightarrow> j < ND2 \<Longrightarrow>
      sqr_dist (X1 ! i) (Y1 ! i) (Z1 ! i) (X2 ! j) (Y2 ! j) (Z2 ! j)
        < rupp ! (nrpbin - 1) * rupp ! (nrpbin - 1)"
  shows "(\<Sum>k = 1..<nrpbin.
      pairs_in_bin bf xmin xmax ymin ymax zmin zmax rmax nrpbin rupp ND1 X1 Y1 Z1 ND2 X2 Y2 Z2 k) =
    ND1 * ND2"
proof -
  from e have K: "0 < nrpbin" "nrpbin - 1 < nrpbin" by (simp_all add: bin_edges_def)
  have "\<exists>k. bin_of nrpbin (rupp_sqr_of nrpbin rupp)
        (sqr_dist (X1 ! i) (Y1 ! i) (Z1 ! i) (X2 ! j) (Y2 ! j) (Z2 ! j)) = Some k
      \<and> 1 \<le> k \<and> k < nrpbin" if "i < ND1" and "j < ND2" for i j
  proof -
    let ?d = "sqr_dist (X1 ! i) (Y1 ! i) (Z1 ! i) (X2 ! j) (Y2 ! j) (Z2 ! j)"
    have "rupp_sqr_of nrpbin rupp ! 0 \<le> ?d"
      using K z by (simp add: rupp_sqr_of_nth sqr_dist_nonneg)
    moreover have "?d < rupp_sqr_of nrpbin rupp ! (nrpbin - 1)"
      using K d [OF that] by (simp add: rupp_sqr_of_nth)
    ultimately obtain k where "bin_of nrpbin (rupp_sqr_of nrpbin rupp) ?d = Some k"
      using bin_of_Some by blast
    with bin_of_range(1,2) [OF this] show ?thesis by blast
  qed
  then show ?thesis
    unfolding pairs_in_bin_edges [OF e m bf] by (rule sum_bins_count_pairs)
qed

lemma list_of_two: "length xs = 2 \<Longrightarrow> xs = [xs ! 0, xs ! 1]"
  by (cases xs; cases "tl xs") auto

lemma list_of_three: "length xs = 3 \<Longrightarrow> xs = [xs ! 0, xs ! 1, xs ! 2]"
  by (cases xs; cases "tl xs"; cases "tl (tl xs)") auto

text \<open>
  65536 points in one place: their \<open>65536 * 65536\<close> pairs all have distance 0, which the
  scan puts in bin 1 when the first edge is 0.
\<close>

lemma crowd_pairs:
  assumes e: "bin_edges nrpbin rupp" and z: "rupp ! 0 = 0" and a: "autocorr \<noteq> 0"
  shows "pairs_counted 2 xmin xmax ymin ymax zmin zmax rmax nrpbin rupp
      n (replicate n a) (replicate n b) (replicate n c) ND2 X2 Y2 Z2 autocorr k =
    (if k = 1 then n * n else 0)"
proof -
  from e have s: "sorted_wrt (<) rupp" and l: "length rupp = nrpbin" and K: "1 < nrpbin"
    and nn: "0 \<le> rupp ! 0"
    by (simp_all add: bin_edges_def)
  from s have "rupp ! 0 < rupp ! 1"
    by (rule sorted_wrt_nth_less) (use l K in simp_all)
  with z have "0 < rupp ! 1" by simp
  with z K have "bin_of nrpbin (rupp_sqr_of nrpbin rupp) 0 = Some 1"
    by (simp add: bin_of_sqr_iff [OF l s nn])
  from pairs_in_bin_replicate [OF this, of 2] a show ?thesis
    by (simp add: pairs_counted_def)
qed

lemma crowd_run_three:
  assumes a: "autocorr \<noteq> 0" and e: "0 < e" "e < e'" and w: "(of_nat (n * n) :: 32 word) = 0"
  shows "map_option histogram
     (countpairs_nopbc SQRT build n (replicate n a) (replicate n b) (replicate n c) ND2 X2 Y2 Z2
        xmin xmax ymin ymax zmin zmax autocorr rpmax 3 [0, e, e'] [p, q, q']) = Some [p, 0, 0]"
proof -
  from e have be: "bin_edges 3 [0, e, e']" by (simp add: bin_edges_def)
  have z: "[0, e, e'] ! 0 = 0" by simp
  have "\<exists>r. countpairs_nopbc SQRT build n (replicate n a) (replicate n b) (replicate n c) ND2 X2 Y2 Z2
        xmin xmax ymin ymax zmin zmax autocorr rpmax 3 [0, e, e'] [p, q, q'] = Some r
    \<and> length (histogram r) = length [p, q, q']
    \<and> (\<forall>k. histogram r ! k =
          (if 1 \<le> k \<and> k < 3 \<and> k < length [p, q, q']
           then of_nat (pairs_counted 2 xmin xmax ymin ymax zmin zmax rpmax 3 [0, e, e']
                          n (replicate n a) (replicate n b) (replicate n c) ND2 X2 Y2 Z2 autocorr k)
           else [p, q, q'] ! k))"
    by (rule run_returns [OF be])
  then obtain r where
    r: "countpairs_nopbc SQRT build n (replicate n a) (replicate n b) (replicate n c) ND2 X2 Y2 Z2
        xmin xmax ymin ymax zmin zmax autocorr rpmax 3 [0, e, e'] [p, q, q'] = Some r"
    and len: "length (histogram r) = 3"
    and nth: "\<And>k. histogram r ! k =
          (if 1 \<le> k \<and> k < 3 \<and> k < length [p, q, q']
           then of_nat (pairs_counted 2 xmin xmax ymin ymax zmin zmax rpmax 3 [0, e, e']
                          n (replicate n a) (replicate n b) (replicate n c) ND2 X2 Y2 Z2 autocorr k)
           else [p, q, q'] ! k)"
    by auto
  have "histogram r ! 0 = p" by (simp add: nth)
  moreover have "histogram r ! 1 = 0"
    using w by (simp add: nth crowd_pairs [OF be z a])
  moreover have "histogram r ! 2 = 0"
    by (simp add: nth crowd_pairs [OF be z a])
  ultimately have "histogram r = [p, 0, 0]"
    using list_of_three [OF len] by simp
  with r show ?thesis by simp
qed

lemma crowd_wraps: "(of_nat (65536 * 65536) :: 32 word) = 0"
  by simp

lemma run_omp_two_sets:
  "map_option histogram
     (countpairs_nopbc_omp SQRT SCALAR (\<lambda>c. nat (c mod 2)) 2 [0, 3] [0, 0] [0, 0] 1 [1] [0] [0]
        (- 1) 4 (- 1) 4 (- 1) 4 0 3 2 3 [0, 2, 3] [0, 0, 0]) = Some [0, 1, 1]"
  "map_option histogram
     (countpairs_nopbc_omp SQRT SCALAR (\<lambda>c. 0) 2 [0, 3] [0, 0] [0, 0] 1 [1] [0] [0]
        (- 1) 4 (- 1) 4 (- 1) 4 0 3 1 3 [0, 2, 3] [0, 0, 0]) = Some [0, 1, 1]"
  by code_simp+

text \<open>
  Edges beyond \<open>rpmax\<close>: with one thread the refine factor is 2 and the two points lie three
  cells apart, so their pair is not found; with two threads the refine factor is 1 and they
  lie in adjacent cells.
\<close>

lemma threads_differ_beyond_rpmax:
  "map_option histogram
     (countpairs_nopbc_omp SQRT SCALAR (\<lambda>c. 0) 2 [1 / 4, 19 / 10] [0, 0] [0, 0] 0 [] [] []
        0 10 0 (1 / 2) 0 (1 / 2) 1 1 1 2 [0, 5] [0, 0]) = Some [0, 2]"
  "map_option histogram
     (countpairs_nopbc_omp SQRT SCALAR (\<lambda>c. nat (c mod 2)) 2 [1 / 4, 19 / 10] [0, 0] [0, 0] 0 [] [] []
        0 10 0 (1 / 2) 0 (1 / 2) 1 1 2 2 [0, 5] [0, 0]) = Some [0, 4]"
  by code_simp+

lemma run_two_sets:
  "map_option histogram
     (countpairs_nopbc SQRT SCALAR 2 [0, 3] [0, 0] [0, 0] 1 [1] [0] [0]
        (- 1) 4 (- 1) 4 (- 1) 4 0 3 3 [0, 2, 3] [0, 0, 0]) = Some [0, 1, 1]"
  "map_option histogram
     (countpairs_nopbc SQRT SCALAR 1 [1] [0] [0] 2 [0, 3] [0, 0] [0, 0]
        (- 1) 4 (- 1) 4 (- 1) 4 0 3 3 [0, 2, 3] [0, 0, 0]) = Some [0, 1, 1]"
  by code_simp+

lemma pairs_counted_commute:
  "pairs_counted bf xmin xmax ymin ymax zmin zmax rmax nrpbin rupp ND1 X1 Y1 Z1 ND2 X2 Y2 Z2 0 k =
   pairs_counted bf xmin xmax ymin ymax zmin zmax rmax nrpbin rupp ND2 X2 Y2 Z2 ND1 X1 Y1 Z1 0 k"
  unfolding pairs_counted_def if_P [OF refl] by (rule pairs_in_bin_commute)

lemma pairs_counted_refine:
  assumes "bin_edges nrpbin rupp" and "rupp ! (nrpbin - 1) \<le> rmax" and "1 \<le> bf" and "1 \<le> bf'"
  shows "pairs_counted bf xmin xmax ymin ymax zmin zmax rmax nrpbin rupp
           ND1 X1 Y1 Z1 ND2 X2 Y2 Z2 autocorr k =
         pairs_counted bf' xmin xmax ymin ymax zmin zmax rmax nrpbin rupp
           ND1 X1 Y1 Z1 ND2 X2 Y2 Z2 autocorr k"
  unfolding pairs_counted_def
  by (simp only: pairs_in_bin_edges [OF assms(1,2,3)] pairs_in_bin_edges [OF assms(1,2,4)])

text \<open>Two runs that return, with the same length and the same slots, return the same histogram.\<close>

lemma same_histogram:
  assumes "\<exists>r. a = Some r \<and> length (histogram r) = n \<and> (\<forall>k. histogram r ! k = f k)"
    and "\<exists>r. b = Some r \<and> length (histogram r) = n \<and> (\<forall>k. histogram r ! k = f k)"
  shows "map_option histogram a = map_option histogram b \<and> a \<noteq> None"
proof -
  from assms obtain r r' where "a = Some r" "b = Some r'"
    "length (histogram r) = n" "length (histogram r') = n"
    "\<And>k. histogram r ! k = f k" "\<And>k. histogram r' ! k = f k"
    by blast
  moreover from this have "histogram r = histogram r'"
    by (intro nth_equalityI) simp_all
  ultimately show ?thesis by simp
qed

section \<open>A cell of points in one place\<close>

lemma length_cell_r2s: "length (cell_r2s first second) = nelements first * nelements second"
  by (simp add: cell_r2s_def length_concat comp_def sum_list_triv)

lemma count_bin_all:
  assumes "\<And>v. v \<in> set r2s \<Longrightarrow> bin_of nrpbin rupp_sqr v = Some k"
  shows "count_bin nrpbin rupp_sqr k' r2s = (if k' = k then length r2s else 0)"
proof (cases "k' = k")
  case True
  with assms have "filter (\<lambda>r2. bin_of nrpbin rupp_sqr r2 = Some k') r2s = r2s"
    by (simp add: filter_id_conv)
  with True show ?thesis by (simp add: count_bin_def)
next
  case False
  with assms have "filter (\<lambda>r2. bin_of nrpbin rupp_sqr r2 = Some k') r2s = []"
    by (auto simp: filter_empty_conv)
  with False show ?thesis by (simp add: count_bin_def)
qed

lemma crowd_r2s:
  assumes "v \<in> set (cell_r2s
      \<lparr>x = replicate n a, y = replicate n b, z = replicate n c, nelements = n\<rparr>
      \<lparr>x = replicate n a, y = replicate n b, z = replicate n c, nelements = n\<rparr>)"
  shows "v = 0"
  using assms by (auto simp: cell_r2s_def sqr_dist_self split: if_splits)

lemma crowd_count_bin:
  assumes "bin_of nrpbin rupp_sqr 0 = Some k"
  shows "count_bin nrpbin rupp_sqr k' (cell_r2s
      \<lparr>x = replicate n a, y = replicate n b, z = replicate n c, nelements = n\<rparr>
      \<lparr>x = replicate n a, y = replicate n b, z = replicate n c, nelements = n\<rparr>) =
    (if k' = k then n * n else 0)"
proof -
  have "bin_of nrpbin rupp_sqr v = Some k" if "v \<in> set (cell_r2s
      \<lparr>x = replicate n a, y = replicate n b, z = replicate n c, nelements = n\<rparr>
      \<lparr>x = replicate n a, y = replicate n b, z = replicate n c, nelements = n\<rparr>)" for v
    using crowd_r2s [OF that] assms by simp
  from count_bin_all [of _ nrpbin rupp_sqr k, OF this] show ?thesis
    by (simp add: length_cell_r2s)
qed

lemma bin_of_zero_one: "bin_of 2 [0, 1] 0 = Some 1"
  by (simp add: bin_of_def)

lemma crowd_kernel:
  "npairs (scalar_kernel SQRT 2 [0, 1]
      \<lparr>x = replicate n a, y = replicate n b, z = replicate n c, nelements = n\<rparr>
      \<lparr>x = replicate n a, y = replicate n b, z = replicate n c, nelements = n\<rparr>
      \<lparr>npairs = [0, 0], rpavg = [0, 0]\<rparr>) = [0, of_nat (n * n)]"
proof -
  let ?s = "scalar_kernel SQRT 2 [0, 1]
      \<lparr>x = replicate n a, y = replicate n b, z = replicate n c, nelements = n\<rparr>
      \<lparr>x = replicate n a, y = replicate n b, z = replicate n c, nelements = n\<rparr>
      \<lparr>npairs = [0, 0], rpavg = [0, 0]\<rparr>"
  have len: "length (npairs ?s) = 2"
    by (simp add: scalar_kernel_counts(1))
  have "npairs ?s ! 0 = 0" "npairs ?s ! 1 = of_nat (n * n)"
    by (simp_all add: scalar_kernel_counts(2) crowd_count_bin [OF bin_of_zero_one])
  with list_of_two [OF len] show ?thesis by simp
qed

lemma unat_add_of_nat_32: "unat (a + of_nat n :: 32 word) = (unat a + n) mod 2 ^ 32"
  by (simp add: unat_word_ariths unat_of_nat mod_add_right_eq)

lemma two_point_report:
  "histogram (report_bins 2 [0, 2] [7, 0]
     (scalar_kernel SQRT 2 [0, 4]
        \<lparr>x = [0, 1], y = [0, 0], z = [0, 0], nelements = 2\<rparr>
        \<lparr>x = [0, 1], y = [0, 0], z = [0, 0], nelements = 2\<rparr>
        \<lparr>npairs = [0, 0], rpavg = [0, 0]\<rparr>)) = [7, 4]"
  by code_simp

section \<open>The distances the vector kernel adds\<close>

lemma AVX_blend_nth:
  assumes "length a = NVEC" and "length r2 = NVEC"
  shows "length (AVX_BLEND_FLOATS_WITH_MASK a (AVX_SET_FLOAT NVEC v) (map P r2)) = NVEC"
    and "l < NVEC \<Longrightarrow>
      AVX_BLEND_FLOATS_WITH_MASK a (AVX_SET_FLOAT NVEC v) (map P r2) ! l = (if P (r2 ! l) then v else a ! l)"
  using assms by (simp_all add: AVX_BLEND_FLOATS_WITH_MASK_def AVX_SET_FLOAT_def)

text \<open>
  After the scan, lane \<open>l\<close> of \<^verbatim>\<open>m_rpbin\<close> holds the bin at which the scalar scan breaks for the
  lane's squared distance, when the table is ordered.
\<close>

lemma avx_kbin_loop_rpbin:
  assumes len: "length r2 = NVEC"
    and "length m_rpbin = NVEC"
    and "\<And>i j. i \<le> j \<Longrightarrow> j \<le> k \<Longrightarrow> rupp_sqr ! i \<le> rupp_sqr ! j"
    and l: "l < NVEC"
  shows "snd (avx_kbin_loop NVEC rupp_sqr r2 k (map (\<lambda>v. v < rupp_sqr ! k) r2) m_rpbin np) ! l =
      (if r2 ! l < rupp_sqr ! k
       then (case kbin_break rupp_sqr (r2 ! l) k of Some b \<Rightarrow> of_nat b | None \<Rightarrow> m_rpbin ! l)
       else m_rpbin ! l)"
  using assms(2,3)
proof (induction k arbitrary: m_rpbin np)
  case 0
  then show ?case by simp
next
  case (Suc k)
  let ?np = "np[Suc k := np ! Suc k + of_nat (length (filter (\<lambda>v. rupp_sqr ! k \<le> v \<and> v < rupp_sqr ! Suc k) r2))]"
  let ?rp = "AVX_BLEND_FLOATS_WITH_MASK m_rpbin (AVX_SET_FLOAT NVEC (of_nat (Suc k)))
      (map (\<lambda>v. rupp_sqr ! k \<le> v \<and> v < rupp_sqr ! Suc k) r2)"
  note step = avx_kbin_loop_step [OF len, of rupp_sqr k m_rpbin np]
  have mono: "\<And>i j. i \<le> j \<Longrightarrow> j \<le> k \<Longrightarrow> rupp_sqr ! i \<le> rupp_sqr ! j"
    using Suc.prems(2) by simp
  have top: "rupp_sqr ! k \<le> rupp_sqr ! Suc k"
    using Suc.prems(2) [of k "Suc k"] by simp
  have lrp: "length ?rp = NVEC"
    by (rule AVX_blend_nth(1) [OF Suc.prems(1) len])
  have rp: "?rp ! l = (if rupp_sqr ! k \<le> r2 ! l \<and> r2 ! l < rupp_sqr ! Suc k
      then of_nat (Suc k) else m_rpbin ! l)"
    by (rule AVX_blend_nth(2) [OF Suc.prems(1) len l])
  note ih = Suc.IH [OF lrp mono, of ?np]
  from l len have mem: "r2 ! l \<in> set r2" by simp
  show ?case
  proof (cases "\<forall>v \<in> set r2. \<not> v < rupp_sqr ! k")
    case all: True
    note st = trans [OF step if_P [OF all]]
    from all mem have "\<not> r2 ! l < rupp_sqr ! k" by blast
    then show ?thesis
      using top by (auto simp add: st rp simp del: avx_kbin_loop.simps of_nat_Suc)
  next
    case False
    note st = trans [OF step if_not_P [OF False]]
    show ?thesis
      using top by (auto simp add: st rp ih simp del: avx_kbin_loop.simps of_nat_Suc split: option.splits)
  qed
qed

lemma fold_accumulate_length:
  "length (fold (\<lambda>jj rp. rp[f jj := rp ! f jj + g jj]) js rp) = length rp"
  by (induction js arbitrary: rp) simp_all

lemma fold_accumulate_nth:
  fixes rp :: "DOUBLE list"
  assumes "m < length rp"
  shows "fold (\<lambda>jj rp. rp[f jj := rp ! f jj + g jj]) js rp ! m =
      rp ! m + sum_list (map g (filter (\<lambda>jj. f jj = m) js))"
  using assms
proof (induction js arbitrary: rp)
  case Nil
  show ?case by simp
next
  case (Cons a js)
  from Cons(1) [of "rp[f a := rp ! f a + g a]"] Cons(2) show ?case
    by (auto simp: nth_list_update)
qed

lemma avx_kbin_loop_rpbin_length:
  assumes len: "length r2 = NVEC" and "length m_rpbin = NVEC"
  shows "length (snd (avx_kbin_loop NVEC rupp_sqr r2 k (map (\<lambda>v. v < rupp_sqr ! k) r2) m_rpbin np))
           = NVEC"
  using assms(2)
proof (induction k arbitrary: m_rpbin np)
  case 0
  then show ?case by simp
next
  case (Suc k)
  have lrp: "length (AVX_BLEND_FLOATS_WITH_MASK m_rpbin (AVX_SET_FLOAT NVEC (of_nat (Suc k)))
      (map (\<lambda>v. rupp_sqr ! k \<le> v \<and> v < rupp_sqr ! Suc k) r2)) = NVEC"
    by (rule AVX_blend_nth(1) [OF Suc.prems len])
  from Suc.IH [OF lrp] lrp show ?case
    by (simp only: avx_kbin_loop_step [OF len] split: if_splits) simp
qed

lemma if_merge: "(if a then s else if b then s else t) = (if a \<or> b then s else t)"
  by simp

lemma truncate_of_nat:
  "l < length a \<Longrightarrow> a ! l = of_nat b \<Longrightarrow> nat (AVX_TRUNCATE_FLOAT_TO_INT a ! l) = b"
  by (simp add: AVX_TRUNCATE_FLOAT_TO_INT_def)

text \<open>The lane loop of lines 298--304 on the bins the scan found.\<close>

lemma avx_block_rpavg:
  assumes sorted: "\<And>i j. i \<le> j \<Longrightarrow> j \<le> nrpbin - 1 \<Longrightarrow> rupp_sqr ! i \<le> rupp_sqr ! j"
  shows "length (rpavg (avx_block SQRT NVEC nrpbin rupp_sqr x1pos y1pos z1pos second j s))
      = length (rpavg s)"
    and "1 \<le> m \<Longrightarrow> m < length (rpavg s) \<Longrightarrow>
      rpavg (avx_block SQRT NVEC nrpbin rupp_sqr x1pos y1pos z1pos second j s) ! m =
        rpavg s ! m + dist_sum SQRT nrpbin rupp_sqr m (lane_r2s NVEC x1pos y1pos z1pos second j)"
proof -
  let ?r2 = "lane_r2s NVEC x1pos y1pos z1pos second j"
  let ?max = "rupp_sqr ! (nrpbin - 1)" and ?min = "rupp_sqr ! 0"
  let ?r2' = "map (\<lambda>v. if v < ?max \<and> ?min \<le> v then v else ?max) ?r2"
  let ?res = "avx_kbin_loop NVEC rupp_sqr ?r2' (nrpbin - 1) (map (\<lambda>v. v < ?max) ?r2')
      (AVX_SET_FLOAT NVEC 0) (npairs s)"
  define kb where "kb = (\<lambda>jj. nat (AVX_TRUNCATE_FLOAT_TO_INT (snd ?res) ! jj))"
  define g where "g = (\<lambda>jj. AVX_SQRT_FLOAT SQRT ?r2' ! jj)"
  define r2 where "r2 = ?r2"
  let ?acc = "fold (\<lambda>jj rp. rp[kb jj := rp ! kb jj + g jj]) [0..<NVEC] (rpavg s)"
  let ?out = "(\<forall>v \<in> set ?r2. \<not> v < ?max) \<or> (\<forall>v \<in> set ?r2. \<not> (v < ?max \<and> ?min \<le> v))"
  have len: "length ?r2 = NVEC" and len': "length ?r2' = NVEC"
    by (simp_all add: lane_r2s_def)
  have len0: "length (AVX_SET_FLOAT NVEC 0) = NVEC"
    by (simp add: AVX_SET_FLOAT_def)
  have lres: "length (snd ?res) = NVEC"
    by (rule avx_kbin_loop_rpbin_length [OF len' len0])
  have blk: "avx_block SQRT NVEC nrpbin rupp_sqr x1pos y1pos z1pos second j s =
      (if ?out then s else s\<lparr>npairs := fst ?res, rpavg := ?acc\<rparr>)"
    unfolding avx_block_unfold Let_def if_merge kb_def g_def by (rule refl)
  have same: "avx_block SQRT NVEC nrpbin rupp_sqr x1pos y1pos z1pos second j s = s" if ?out
    unfolding blk if_P [OF that] by (rule refl)
  have acc: "rpavg (avx_block SQRT NVEC nrpbin rupp_sqr x1pos y1pos z1pos second j s) = ?acc"
    if "\<not> ?out"
    unfolding blk if_not_P [OF that] by simp
  show "length (rpavg (avx_block SQRT NVEC nrpbin rupp_sqr x1pos y1pos z1pos second j s))
      = length (rpavg s)"
  proof (cases ?out)
    case True
    show ?thesis unfolding same [OF True] by (rule refl)
  next
    case False
    show ?thesis unfolding acc [OF False] by (rule fold_accumulate_length)
  qed
  assume m: "1 \<le> m" "m < length (rpavg s)"
  have lane: "kb l = (case bin_of nrpbin rupp_sqr (r2 ! l) of Some b \<Rightarrow> b | None \<Rightarrow> 0)"
    if l: "l < NVEC" for l
  proof -
    let ?v = "?r2 ! l"
    have v': "?r2' ! l = (if ?v < ?max \<and> ?min \<le> ?v then ?v else ?max)"
      using l len by simp
    have z: "AVX_SET_FLOAT NVEC 0 ! l = 0"
      using l by (simp add: AVX_SET_FLOAT_def)
    have "snd ?res ! l =
        (if ?r2' ! l < ?max
         then (case kbin_break rupp_sqr (?r2' ! l) (nrpbin - 1) of
                 Some b \<Rightarrow> of_nat b | None \<Rightarrow> AVX_SET_FLOAT NVEC 0 ! l)
         else AVX_SET_FLOAT NVEC 0 ! l)"
      by (rule avx_kbin_loop_rpbin [OF len' len0 sorted l])
    then have "snd ?res ! l = of_nat (case bin_of nrpbin rupp_sqr ?v of Some b \<Rightarrow> b | None \<Rightarrow> 0)"
      unfolding v' z
      by (auto simp: bin_of_def split: option.splits if_splits)
    with lres l show ?thesis
      unfolding kb_def r2_def by (intro truncate_of_nat) simp_all
  qed
  have gl: "g l = SQRT (r2 ! l)" if "l < NVEC" and "bin_of nrpbin rupp_sqr (r2 ! l) = Some m" for l
  proof -
    from that(2) have "?r2 ! l < ?max \<and> ?min \<le> ?r2 ! l"
      by (auto simp: bin_of_def r2_def split: if_splits)
    with that(1) len show ?thesis
      by (simp add: g_def r2_def AVX_SQRT_FLOAT_def)
  qed
  have none: "dist_sum SQRT nrpbin rupp_sqr m ?r2 = 0"
    if "\<forall>v \<in> set ?r2. \<not> (v < ?max \<and> ?min \<le> v)"
  proof -
    have "bin_of nrpbin rupp_sqr v \<noteq> Some m" if "v \<in> set ?r2" for v
      using that \<open>\<forall>v \<in> set ?r2. \<not> (v < ?max \<and> ?min \<le> v)\<close>
      by (auto simp: bin_of_def)
    then have "filter (\<lambda>r2. bin_of nrpbin rupp_sqr r2 = Some m) ?r2 = []"
      by (simp add: filter_empty_conv)
    then show ?thesis
      by (simp add: dist_sum_def)
  qed
  show "rpavg (avx_block SQRT NVEC nrpbin rupp_sqr x1pos y1pos z1pos second j s) ! m =
        rpavg s ! m + dist_sum SQRT nrpbin rupp_sqr m ?r2"
  proof (cases ?out)
    case True
    then have "\<forall>v \<in> set ?r2. \<not> (v < ?max \<and> ?min \<le> v)" by blast
    from none [OF this] show ?thesis
      unfolding same [OF True] by simp
  next
    case False
    have f: "filter (\<lambda>jj. kb jj = m) [0..<NVEC] =
        filter (\<lambda>jj. bin_of nrpbin rupp_sqr (r2 ! jj) = Some m) [0..<NVEC]"
      using m(1) by (intro filter_cong refl) (auto simp: lane split: option.splits)
    have g: "map g (filter (\<lambda>jj. bin_of nrpbin rupp_sqr (r2 ! jj) = Some m) [0..<NVEC]) =
        map (\<lambda>jj. SQRT (r2 ! jj)) (filter (\<lambda>jj. bin_of nrpbin rupp_sqr (r2 ! jj) = Some m) [0..<NVEC])"
      by (intro map_cong refl gl) simp_all
    have "length r2 = NVEC" using len by (simp add: r2_def)
    then have "map (\<lambda>jj. r2 ! jj) [0..<NVEC] = r2"
      using map_nth [of r2] by simp
    then have "dist_sum SQRT nrpbin rupp_sqr m r2 =
        dist_sum SQRT nrpbin rupp_sqr m (map (\<lambda>jj. r2 ! jj) [0..<NVEC])"
      by simp
    also have "\<dots> = sum_list (map (\<lambda>jj. SQRT (r2 ! jj))
          (filter (\<lambda>jj. bin_of nrpbin rupp_sqr (r2 ! jj) = Some m) [0..<NVEC]))"
      unfolding dist_sum_def by (simp only: filter_map map_map comp_def)
    finally have d: "dist_sum SQRT nrpbin rupp_sqr m ?r2 =
        sum_list (map (\<lambda>jj. SQRT (r2 ! jj))
          (filter (\<lambda>jj. bin_of nrpbin rupp_sqr (r2 ! jj) = Some m) [0..<NVEC]))"
      by (simp only: r2_def)
    show ?thesis
      unfolding acc [OF False] d by (simp only: fold_accumulate_nth [OF m(2)] f g)
  qed
qed

lemma avx_row_rpavg:
  assumes sorted: "\<And>i j. i \<le> j \<Longrightarrow> j \<le> nrpbin - 1 \<Longrightarrow> rupp_sqr ! i \<le> rupp_sqr ! j"
  defines "d \<equiv> \<lambda>x1pos y1pos z1pos second l.
      sqr_dist x1pos y1pos z1pos (x second ! l) (y second ! l) (z second ! l)"
  shows "length (rpavg (case avx_j_loop SQRT NVEC nrpbin rupp_sqr x1pos y1pos z1pos second j s of
            (j', s') \<Rightarrow> fold (scalar_pair SQRT nrpbin rupp_sqr x1pos y1pos z1pos second)
                          [j'..<nelements second] s')) = length (rpavg s)
    \<and> (1 \<le> m \<and> m < length (rpavg s) \<longrightarrow>
        rpavg (case avx_j_loop SQRT NVEC nrpbin rupp_sqr x1pos y1pos z1pos second j s of
            (j', s') \<Rightarrow> fold (scalar_pair SQRT nrpbin rupp_sqr x1pos y1pos z1pos second)
                          [j'..<nelements second] s') ! m =
          rpavg s ! m + dist_sum SQRT nrpbin rupp_sqr m
              (map (d x1pos y1pos z1pos second) [j..<nelements second]))"
  using sorted
proof (induction SQRT NVEC nrpbin rupp_sqr x1pos y1pos z1pos second j s rule: avx_j_loop.induct)
  case (1 SQRT NVEC nrpbin rupp_sqr x1pos y1pos z1pos second j s)
  let ?n = "nelements second"
  have pair: "scalar_pair SQRT nrpbin rupp_sqr x1pos y1pos z1pos second =
      (\<lambda>l. bin_r2 SQRT nrpbin rupp_sqr (d x1pos y1pos z1pos second l))"
    by (rule ext)+ (simp add: scalar_pair_def d_def)
  show ?case
  proof (cases "0 < NVEC \<and> j + NVEC \<le> ?n")
    case False
    have "avx_j_loop SQRT NVEC nrpbin rupp_sqr x1pos y1pos z1pos second j s = (j, s)"
      by (subst avx_j_loop.simps) (simp only: if_not_P [OF False])
    then show ?thesis
      by (simp add: pair fold_map [symmetric, unfolded comp_def] rpavg_fold_bin_r2
          flip: fold_map)
  next
    case True
    let ?s1 = "avx_block SQRT NVEC nrpbin rupp_sqr x1pos y1pos z1pos second j s"
    have step: "avx_j_loop SQRT NVEC nrpbin rupp_sqr x1pos y1pos z1pos second j s =
        avx_j_loop SQRT NVEC nrpbin rupp_sqr x1pos y1pos z1pos second (j + NVEC) ?s1"
      by (subst avx_j_loop.simps) (simp only: if_P [OF True])
    note blk = avx_block_rpavg [OF "1.prems", where SQRT = SQRT and NVEC = NVEC and ?x1pos = x1pos
        and ?y1pos = y1pos and ?z1pos = z1pos and second = second and j = j and s = s]
    note ih = "1.IH" [OF True "1.prems"]
    have split: "[j..<?n] = [j..<j + NVEC] @ [j + NVEC..<?n]"
      using True upt_add_eq_append [of j "j + NVEC" "?n - j - NVEC"] by simp
    have cnt: "dist_sum SQRT nrpbin rupp_sqr m (map (d x1pos y1pos z1pos second) [j..<?n]) =
        dist_sum SQRT nrpbin rupp_sqr m (lane_r2s NVEC x1pos y1pos z1pos second j)
        + dist_sum SQRT nrpbin rupp_sqr m (map (d x1pos y1pos z1pos second) [j + NVEC..<?n])"
      by (simp add: split lane_r2s_upt d_def)
    from ih blk show ?thesis
      by (simp add: step cnt algebra_simps)
  qed
qed

lemma avx_kernel_dists:
  assumes sorted: "\<And>i j. i \<le> j \<Longrightarrow> j \<le> nrpbin - 1 \<Longrightarrow> rupp_sqr ! i \<le> rupp_sqr ! j"
  shows "length (rpavg (avx_kernel SQRT NVEC nrpbin rupp_sqr first second s)) = length (rpavg s)"
    and "1 \<le> m \<Longrightarrow> m < length (rpavg s) \<Longrightarrow>
      rpavg (avx_kernel SQRT NVEC nrpbin rupp_sqr first second s) ! m =
        rpavg s ! m + dist_sum SQRT nrpbin rupp_sqr m (cell_r2s first second)"
proof -
  let ?row = "\<lambda>i s. case avx_j_loop SQRT NVEC nrpbin rupp_sqr (x first ! i) (y first ! i) (z first ! i)
        second 0 s of
      (j', s') \<Rightarrow> fold (scalar_pair SQRT nrpbin rupp_sqr (x first ! i) (y first ! i) (z first ! i) second)
                    [j'..<nelements second] s'"
  let ?d = "\<lambda>i. map (\<lambda>j. sqr_dist (x first ! i) (y first ! i) (z first ! i)
      (x second ! j) (y second ! j) (z second ! j)) [0..<nelements second]"
  note row = avx_row_rpavg [OF sorted, where SQRT = SQRT and NVEC = NVEC and second = second
      and j = 0 and m = m]
  have k: "avx_kernel SQRT NVEC nrpbin rupp_sqr first second s = fold ?row [0..<nelements first] s"
    by (simp add: avx_kernel_def Let_def)
  have "length (rpavg (fold ?row is s)) = length (rpavg s)
      \<and> (1 \<le> m \<and> m < length (rpavg s) \<longrightarrow> rpavg (fold ?row is s) ! m =
          rpavg s ! m + dist_sum SQRT nrpbin rupp_sqr m (concat (map ?d is)))" for "is"
  proof (induction "is" arbitrary: s)
    case Nil
    show ?case by simp
  next
    case (Cons i "is")
    from row [where ?x1pos = "x first ! i" and ?y1pos = "y first ! i" and ?z1pos = "z first ! i"
        and s = s] Cons [of "?row i s"]
    show ?case
      by (simp add: algebra_simps)
  qed
  from this [of "[0..<nelements first]"]
  show "length (rpavg (avx_kernel SQRT NVEC nrpbin rupp_sqr first second s)) = length (rpavg s)"
    and "1 \<le> m \<Longrightarrow> m < length (rpavg s) \<Longrightarrow>
      rpavg (avx_kernel SQRT NVEC nrpbin rupp_sqr first second s) ! m =
        rpavg s ! m + dist_sum SQRT nrpbin rupp_sqr m (cell_r2s first second)"
    by (simp_all add: k cell_r2s_def)
qed

lemma scalar_kernel_dists:
  "length (rpavg (scalar_kernel SQRT nrpbin rupp_sqr first second s)) = length (rpavg s)"
  "m < length (rpavg s) \<Longrightarrow>
     rpavg (scalar_kernel SQRT nrpbin rupp_sqr first second s) ! m =
       rpavg s ! m + dist_sum SQRT nrpbin rupp_sqr m (cell_r2s first second)"
  by (simp_all add: scalar_kernel_fold rpavg_fold_bin_r2)

lemma sorted_table:
  assumes "length rupp_sqr = nrpbin" and "sorted rupp_sqr" and "i \<le> j" and "j \<le> nrpbin - 1"
  shows "rupp_sqr ! i \<le> rupp_sqr ! j"
proof (cases "nrpbin = 0")
  case True
  with assms(3,4) show ?thesis by simp
next
  case False
  with assms(1,4) have "j < length rupp_sqr" by simp
  with assms(2,3) show ?thesis by (rule sorted_nth_mono)
qed

text \<open>A table that is not ordered, on which the two kernels count differently.\<close>

lemma kernels_differ_unordered:
  "npairs (avx_kernel SQRT 4 4 [0, 4, 1, 9]
      \<lparr>x = [0], y = [0], z = [0], nelements = 1\<rparr>
      \<lparr>x = [7 / 5, 7 / 10, 7 / 10, 7 / 10], y = [0, 0, 0, 0], z = [0, 0, 0, 0], nelements = 4\<rparr>
      \<lparr>npairs = [0, 0, 0, 0], rpavg = [0, 0, 0, 0]\<rparr>) = [0, 4, 0, 1]"
  "npairs (scalar_kernel SQRT 4 [0, 4, 1, 9]
      \<lparr>x = [0], y = [0], z = [0], nelements = 1\<rparr>
      \<lparr>x = [7 / 5, 7 / 10, 7 / 10, 7 / 10], y = [0, 0, 0, 0], z = [0, 0, 0, 0], nelements = 4\<rparr>
      \<lparr>npairs = [0, 0, 0, 0], rpavg = [0, 0, 0, 0]\<rparr>) = [0, 3, 0, 1]"
  by code_simp+

lemma kernels_agree_ordered:
  "npairs (avx_kernel SQRT 4 4 [0, 1, 4, 9]
      \<lparr>x = [0], y = [0], z = [0], nelements = 1\<rparr>
      \<lparr>x = [7 / 5, 7 / 10, 5 / 2, 3, 1], y = [0, 0, 0, 0, 0], z = [0, 0, 0, 0, 0], nelements = 5\<rparr>
      \<lparr>npairs = [0, 0, 0, 0], rpavg = [0, 0, 0, 0]\<rparr>) = [0, 1, 2, 1]"
  by code_simp

section \<open>The index arithmetic in \<^verbatim>\<open>int\<close>\<close>

lemma int_wrap_id: "- (2 ^ 31) \<le> v \<Longrightarrow> v < 2 ^ 31 \<Longrightarrow> int_wrap v = v"
  by (simp add: int_wrap_def)

lemma lattice_decode_ok:
  assumes "0 < nmesh_x" and "0 < nmesh_y" and "0 < nmesh_z"
    and "0 \<le> icell" and "icell < nmesh_x * nmesh_y * nmesh_z"
  shows "lattice_assert nmesh_y nmesh_z icell
    \<and> 0 \<le> lattice_ix nmesh_y nmesh_z icell \<and> lattice_ix nmesh_y nmesh_z icell < nmesh_x
    \<and> 0 \<le> lattice_iy nmesh_y nmesh_z icell \<and> lattice_iy nmesh_y nmesh_z icell < nmesh_y
    \<and> 0 \<le> lattice_iz nmesh_z icell \<and> lattice_iz nmesh_z icell < nmesh_z"
proof -
  note d = cell_decode [OF assms(2,3,4)]
  let ?m = "icell mod (nmesh_z * nmesh_y)"
  from assms have pos: "0 < nmesh_z * nmesh_y" by simp
  have "?m mod nmesh_z = icell mod nmesh_z"
    by (simp add: mod_mod_cancel)
  then have "icell mod nmesh_z + nmesh_z * (?m div nmesh_z) = ?m"
    by (metis mod_mult_div_eq)
  moreover have "?m + nmesh_z * nmesh_y * (icell div (nmesh_z * nmesh_y)) = icell"
    by simp
  ultimately have a: "lattice_assert nmesh_y nmesh_z icell"
    by (simp add: lattice_assert_def d)
  have "icell < nmesh_x * (nmesh_z * nmesh_y)"
    using assms(5) by (simp add: ac_simps)
  then have ix: "icell div (nmesh_z * nmesh_y) < nmesh_x"
    using pos by (intro int_div_less)
  have "0 \<le> ?m" and "?m < nmesh_z * nmesh_y"
    using pos by simp_all
  then have iy: "0 \<le> ?m div nmesh_z" "?m div nmesh_z < nmesh_y"
    using assms(3) by (simp_all add: pos_imp_zdiv_nonneg_iff int_div_less mult.commute)
  have ix0: "0 \<le> icell div (nmesh_z * nmesh_y)"
    using assms(4) pos by (simp add: pos_imp_zdiv_nonneg_iff)
  show ?thesis
    using a ix ix0 iy assms(3) by (simp add: d)
qed

text \<open>
  When \<^verbatim>\<open>nmesh_z * nmesh_y\<close> does not overflow, no operation of lines 142--145 does, for any
  cell index that is not negative.
\<close>

lemma cell_coords_exact:
  assumes y: "0 < nmesh_y" and z: "0 < nmesh_z" and d: "nmesh_z * nmesh_y < 2 ^ 31"
    and c0: "0 \<le> icell" and c1: "icell < 2 ^ 31"
  shows "cell_iz nmesh_z icell = lattice_iz nmesh_z icell"
    and "cell_ix nmesh_y nmesh_z icell = lattice_ix nmesh_y nmesh_z icell"
    and "cell_iy nmesh_y nmesh_z icell = lattice_iy nmesh_y nmesh_z icell"
    and "index_assert nmesh_y nmesh_z icell = lattice_assert nmesh_y nmesh_z icell"
proof -
  let ?d = "nmesh_z * nmesh_y"
  let ?ix = "icell div ?d" and ?iz = "icell mod nmesh_z" and ?m = "icell mod ?d"
  let ?iy = "?m div nmesh_z"
  note dec = cell_decode [OF y z c0]
  from y z have pos: "0 < ?d" by simp
  have w: "int_wrap v = v" if "0 \<le> v" and "v \<le> icell" for v
    using that c1 by (intro int_wrap_id) simp_all
  have wd: "int_wrap ?d = ?d"
    using pos d by (intro int_wrap_id) simp_all
  have ix0: "0 \<le> ?ix"
    using c0 pos by (simp add: pos_imp_zdiv_nonneg_iff)
  have iz: "0 \<le> ?iz" "?iz \<le> icell"
    using c0 z by (simp_all add: zmod_le_nonneg_dividend)
  have m: "0 \<le> ?m" "?m \<le> icell"
    using c0 pos by (simp_all add: zmod_le_nonneg_dividend)
  have ixd: "?ix * ?d + ?m = icell" by (rule div_mult_mod_eq)
  have "0 \<le> ?ix * ?d" using ix0 pos by simp
  with ixd m have ixd_le: "?ix * ?d \<le> icell" by linarith
  have "?ix * 1 \<le> ?ix * ?d"
    using ix0 pos by (intro mult_left_mono) simp_all
  with ixd_le ix0 have ix: "0 \<le> ?ix" "?ix \<le> icell" by simp_all
  have ixz: "0 \<le> ?ix * nmesh_z" "?ix * nmesh_z \<le> icell"
  proof -
    show "0 \<le> ?ix * nmesh_z" using ix z by simp
    have "?ix * nmesh_z * 1 \<le> ?ix * nmesh_z * nmesh_y"
      using ix z y by (intro mult_left_mono) simp_all
    with ixd_le show "?ix * nmesh_z \<le> icell" by (simp add: mult.assoc)
  qed
  have ixzy: "0 \<le> ?ix * nmesh_z * nmesh_y" "?ix * nmesh_z * nmesh_y \<le> icell"
    using ixd_le ix pos by (simp_all add: mult.assoc)
  have mz: "?m mod nmesh_z = ?iz"
    by (simp add: mod_mod_cancel)
  have split: "?iz + nmesh_z * ?iy = ?m"
    using mz by (metis mod_mult_div_eq)
  have iy: "0 \<le> ?iy" using m z by (simp add: pos_imp_zdiv_nonneg_iff)
  then have ziy: "0 \<le> nmesh_z * ?iy" using z by simp
  with split iz m have ziy_le: "nmesh_z * ?iy \<le> icell" by linarith
  have diff1: "0 \<le> icell - ?iz" "icell - ?iz \<le> icell"
    using iz by simp_all
  have diff2: "icell - ?iz - ?ix * nmesh_z * nmesh_y = nmesh_z * ?iy"
    using ixd split by (simp add: mult.assoc) 
  have iy_le: "?iy \<le> icell"
  proof -
    have "?iy * 1 \<le> ?iy * nmesh_z" using iy z by (intro mult_left_mono) simp_all
    with ziy_le show ?thesis by (simp add: mult.commute)
  qed
  have quot: "(nmesh_z * ?iy) sdiv nmesh_z = ?iy"
    using ziy z by (simp add: sdiv_nonneg)
  show iz_eq: "cell_iz nmesh_z icell = lattice_iz nmesh_z icell"
    by (simp add: cell_iz_def lattice_iz_def)
  have civ: "cell_iz nmesh_z icell = ?iz"
    by (simp add: iz_eq dec)
  have cix: "cell_ix nmesh_y nmesh_z icell = ?ix"
    using c0 pos by (simp add: cell_ix_def wd sdiv_nonneg w [OF ix])
  then show "cell_ix nmesh_y nmesh_z icell = lattice_ix nmesh_y nmesh_z icell"
    by (simp add: dec)
  have ciy: "cell_iy nmesh_y nmesh_z icell = ?iy"
    unfolding cell_iy_def civ cix w [OF diff1] w [OF ixz] w [OF ixzy] diff2
      w [OF ziy ziy_le] quot w [OF iy iy_le]
    by (rule refl)
  then show "cell_iy nmesh_y nmesh_z icell = lattice_iy nmesh_y nmesh_z icell"
    by (simp add: dec)
  have dix: "0 \<le> ?d * ?ix" "?d * ?ix \<le> icell"
    using ixd_le ix pos by (simp_all add: mult.commute)
  have sum1: "0 \<le> ?iz + nmesh_z * ?iy" "?iz + nmesh_z * ?iy \<le> icell"
    using split m by simp_all
  have total: "?iz + nmesh_z * ?iy + ?d * ?ix = icell"
    using split ixd by (simp add: mult.commute)
  have "index_assert nmesh_y nmesh_z icell"
    unfolding index_assert_def civ cix ciy wd w [OF ziy ziy_le] w [OF sum1] w [OF dix] total
      w [OF c0 order_refl]
    by (rule refl)
  moreover have "lattice_assert nmesh_y nmesh_z icell"
    using total by (simp add: lattice_assert_def dec)
  ultimately show "index_assert nmesh_y nmesh_z icell = lattice_assert nmesh_y nmesh_z icell"
    by simp
qed

text \<open>
  The scalar kernel on the point \<open>(0, 0, 0)\<close> against the points \<open>(1, 0, 0)\<close> and \<open>(2, 0, 0)\<close>
  with the edges 0, 1, 2: the pair at distance 1 is counted in bin 2, the pair at distance 2
  in no bin.
\<close>

lemma scalar_kernel_example:
  "npairs (scalar_kernel SQRT 3 (rupp_sqr_of 3 [0, 1, 2])
      \<lparr>x = [0], y = [0], z = [0], nelements = 1\<rparr>
      \<lparr>x = [1, 2], y = [0, 0], z = [0, 0], nelements = 2\<rparr>
      \<lparr>npairs = [0, 0, 0], rpavg = [0, 0, 0]\<rparr>) = [0, 0, 1]"
  by code_simp

lemma count_bin_edges:
  assumes "length rupp = nrpbin" and "sorted_wrt (<) rupp" and "0 \<le> rupp ! 0"
  shows "count_bin nrpbin (rupp_sqr_of nrpbin rupp) k r2s =
    length (filter (\<lambda>r2. 1 \<le> k \<and> k < nrpbin
        \<and> rupp ! (k - 1) * rupp ! (k - 1) \<le> r2 \<and> r2 < rupp ! k * rupp ! k) r2s)"
  by (simp add: count_bin_def bin_of_sqr_iff [OF assms])

section \<open>Claims about the pair kernel and the index arithmetic\<close>




text \<open>
  Claim C10. In the scalar kernel, a pair that passes the range filter
  (\<open>rupp_sqr[0] \<le> r2 < rupp_sqr[nrpbin-1]\<close>) makes the descending scan take its
  \<^verbatim>\<open>break\<close> at some \<open>kbin\<close> with \<open>1 \<le> kbin < nrpbin\<close>; the pair increments exactly that
  one entry of \<^verbatim>\<open>npairs\<close>. Entry 0 of \<^verbatim>\<open>npairs\<close> is never changed by the scalar kernel,
  whatever the cells and the table are.
\<close>

theorem scalar_scan_breaks:
  fixes x1pos y1pos z1pos :: DOUBLE and second :: cellarray and j :: nat and s :: counters
  defines "r2 \<equiv> sqr_dist x1pos y1pos z1pos (x second ! j) (y second ! j) (z second ! j)"
  assumes "rupp_sqr ! 0 \<le> r2" and "r2 < rupp_sqr ! (nrpbin - 1)"
    and "length (npairs s) = nrpbin"
  shows "(\<exists>k. 1 \<le> k \<and> k < nrpbin \<and> kbin_break rupp_sqr r2 (nrpbin - 1) = Some k
            \<and> npairs (scalar_pair SQRT nrpbin rupp_sqr x1pos y1pos z1pos second j s)
                = (npairs s)[k := npairs s ! k + 1])
    \<and> npairs (scalar_kernel SQRT nrpbin rupp_sqr first second' s') ! 0 = npairs s' ! 0"
proof -
  from bin_of_Some [OF assms(2,3)] obtain k where k: "bin_of nrpbin rupp_sqr r2 = Some k"
    by blast
  from bin_of_range [OF k] have "1 \<le> k" "k < nrpbin" by simp_all
  moreover from k assms(2,3) have "kbin_break rupp_sqr r2 (nrpbin - 1) = Some k"
    by (simp add: bin_of_def split: if_splits)
  moreover from k have "npairs (scalar_pair SQRT nrpbin rupp_sqr x1pos y1pos z1pos second j s)
      = (npairs s)[k := npairs s ! k + 1]"
    by (simp add: scalar_pair_def r2_def [symmetric] bin_r2_bin_of bump_def)
  ultimately show ?thesis
    using npairs_scalar_kernel_zero by blast
qed

theorem scalar_scan_breaks_witness:
  "[0, 1, 4] ! 0 \<le> sqr_dist 0 0 0 ([3 / 2] ! 0) ([0] ! 0) ([0] ! 0)
   \<and> sqr_dist 0 0 0 ([3 / 2] ! 0) ([0] ! 0) ([0] ! 0) < [0, 1, 4] ! (3 - 1)
   \<and> length (npairs \<lparr>npairs = [0, 0, 0], rpavg = [0, 0, 0]\<rparr>) = 3
   \<and> kbin_break [0, 1, 4] (sqr_dist 0 0 0 (3 / 2) 0 0) 2 = Some 2
   \<and> npairs (scalar_pair sqrt 3 [0, 1, 4] 0 0 0 \<lparr>x = [3 / 2], y = [0], z = [0], nelements = 1\<rparr> 0
        \<lparr>npairs = [0, 0, 0], rpavg = [0, 0, 0]\<rparr>) = [0, 0, 1]
   \<and> npairs (scalar_kernel sqrt 3 [0, 1, 4] \<lparr>x = [0], y = [0], z = [0], nelements = 1\<rparr>
        \<lparr>x = [3 / 2], y = [0], z = [0], nelements = 1\<rparr>
        \<lparr>npairs = [0, 0, 0], rpavg = [0, 0, 0]\<rparr>) ! 0 = 0"
proof -
  have r: "sqr_dist 0 0 0 (3 / 2) 0 0 = 9 / 4"
    by (simp add: sqr_dist_def)
  have b: "kbin_break [0, 1, 4] (9 / 4) 2 = Some 2"
    by (simp add: numeral_2_eq_2)
  from scalar_scan_breaks [where rupp_sqr = "[0, 1, 4]" and nrpbin = 3
      and ?x1pos = 0 and ?y1pos = 0 and ?z1pos = 0 and j = 0
      and second = "\<lparr>x = [3 / 2], y = [0], z = [0], nelements = 1\<rparr>"
      and s = "\<lparr>npairs = [0, 0, 0], rpavg = [0, 0, 0]\<rparr>"
      and first = "\<lparr>x = [0], y = [0], z = [0], nelements = 1\<rparr>"
      and second' = "\<lparr>x = [3 / 2], y = [0], z = [0], nelements = 1\<rparr>"
      and s' = "\<lparr>npairs = [0, 0, 0], rpavg = [0, 0, 0]\<rparr>"]
  show ?thesis
    by (simp add: r b)
qed

text \<open>
  Claim C1. Bin edges as the data model has them: \<open>nrpbin\<close> edges, strictly increasing,
  the first not negative. The scalar kernel (lines 179--210) runs its loop body once on
  every pair of a point \<open>i\<close> of the outer cell and a point \<open>j\<close> of the neighbour cell, in
  the order of the loops, and leaves in \<open>npairs[m]\<close> the number of those pairs with
  \<open>rupp[m-1]\<^sup>2 \<le> r2 < rupp[m]\<^sup>2\<close>, added to what was there. For each such pair, with
  \<open>r2 = dx*dx + dy*dy + dz*dz\<close>:
  if \<open>rupp[0]\<^sup>2 \<le> r2 < rupp[nrpbin-1]\<^sup>2\<close>, there is exactly one \<open>k\<close> in \<open>[1, nrpbin-1]\<close> with
  \<open>rupp[k-1]\<^sup>2 \<le> r2 < rupp[k]\<^sup>2\<close>, and the loop body increments \<open>npairs[k]\<close> and adds
  \<open>SQRT(r2)\<close> to \<open>rpavg[k]\<close>, changing nothing else;
  a pair exactly at an edge, \<open>r2 = rupp[k]\<^sup>2\<close> with \<open>k + 1 < nrpbin\<close>, goes to bin \<open>k + 1\<close>;
  if \<open>r2 < rupp[0]\<^sup>2\<close> or \<open>r2 \<ge> rupp[nrpbin-1]\<^sup>2\<close> (so also at the last edge exactly), the
  counters are left as they were.
\<close>

theorem scalar_kernel_bins:
  fixes SQRT :: "DOUBLE \<Rightarrow> DOUBLE" and nrpbin :: nat and rupp :: "DOUBLE list"
    and first second :: cellarray and i j m :: nat and s t :: counters
  defines "r2 \<equiv> sqr_dist (x first ! i) (y first ! i) (z first ! i)
                          (x second ! j) (y second ! j) (z second ! j)"
  defines "s' \<equiv> scalar_pair SQRT nrpbin (rupp_sqr_of nrpbin rupp)
                  (x first ! i) (y first ! i) (z first ! i) second j s"
  assumes "length rupp = nrpbin" and "sorted_wrt (<) rupp" and "0 \<le> rupp ! 0"
    and "i < nelements first" and "j < nelements second" and "m < length (npairs t)"
  shows "scalar_kernel SQRT nrpbin (rupp_sqr_of nrpbin rupp) first second t =
           fold (\<lambda>(i, j). scalar_pair SQRT nrpbin (rupp_sqr_of nrpbin rupp)
                            (x first ! i) (y first ! i) (z first ! i) second j)
             (List.product [0..<nelements first] [0..<nelements second]) t
       \<and> (i, j) \<in> set (List.product [0..<nelements first] [0..<nelements second])
       \<and> npairs (scalar_kernel SQRT nrpbin (rupp_sqr_of nrpbin rupp) first second t) ! m =
           npairs t ! m
           + of_nat (length (filter (\<lambda>r2. 1 \<le> m \<and> m < nrpbin
                 \<and> rupp ! (m - 1) * rupp ! (m - 1) \<le> r2 \<and> r2 < rupp ! m * rupp ! m)
               (cell_r2s first second)))
       \<and> (rupp ! 0 * rupp ! 0 \<le> r2 \<and> r2 < rupp ! (nrpbin - 1) * rupp ! (nrpbin - 1) \<longrightarrow>
           (\<exists>k. 1 \<le> k \<and> k < nrpbin \<and> rupp ! (k - 1) * rupp ! (k - 1) \<le> r2 \<and> r2 < rupp ! k * rupp ! k
              \<and> (\<forall>l. 1 \<le> l \<and> l < nrpbin \<and> rupp ! (l - 1) * rupp ! (l - 1) \<le> r2 \<and> r2 < rupp ! l * rupp ! l
                    \<longrightarrow> l = k)
              \<and> npairs s' = (npairs s)[k := npairs s ! k + 1]
              \<and> rpavg s' = (rpavg s)[k := rpavg s ! k + SQRT r2]))
       \<and> (\<forall>k. k + 1 < nrpbin \<and> r2 = rupp ! k * rupp ! k \<longrightarrow>
              npairs s' = (npairs s)[k + 1 := npairs s ! (k + 1) + 1]
              \<and> rpavg s' = (rpavg s)[k + 1 := rpavg s ! (k + 1) + SQRT r2])
       \<and> (r2 < rupp ! 0 * rupp ! 0 \<or> rupp ! (nrpbin - 1) * rupp ! (nrpbin - 1) \<le> r2 \<longrightarrow> s' = s)"
proof -
  let ?rs = "rupp_sqr_of nrpbin rupp"
  note iff = bin_of_sqr_iff [OF assms(3,4,5)]
  have s': "s' = (case bin_of nrpbin ?rs r2 of None \<Rightarrow> s | Some k \<Rightarrow> bump k (SQRT r2) s)"
    by (simp add: s'_def scalar_pair_def r2_def [symmetric] bin_r2_bin_of)
  have upd: "npairs s' = (npairs s)[k := npairs s ! k + 1]
      \<and> rpavg s' = (rpavg s)[k := rpavg s ! k + SQRT r2]"
    if "bin_of nrpbin ?rs r2 = Some k" for k
    using that by (simp add: s' bump_def)
  have inside: "\<exists>k. 1 \<le> k \<and> k < nrpbin \<and> rupp ! (k - 1) * rupp ! (k - 1) \<le> r2 \<and> r2 < rupp ! k * rupp ! k
      \<and> (\<forall>l. 1 \<le> l \<and> l < nrpbin \<and> rupp ! (l - 1) * rupp ! (l - 1) \<le> r2 \<and> r2 < rupp ! l * rupp ! l
            \<longrightarrow> l = k)
      \<and> npairs s' = (npairs s)[k := npairs s ! k + 1]
      \<and> rpavg s' = (rpavg s)[k := rpavg s ! k + SQRT r2]"
    if lo: "rupp ! 0 * rupp ! 0 \<le> r2" and hi: "r2 < rupp ! (nrpbin - 1) * rupp ! (nrpbin - 1)"
  proof -
    from lo hi have "nrpbin - 1 \<noteq> 0" by (cases "nrpbin - 1") auto
    then have "0 < nrpbin" "nrpbin - 1 < nrpbin" by simp_all
    with lo hi have "?rs ! 0 \<le> r2" and "r2 < ?rs ! (nrpbin - 1)" by simp_all
    from bin_of_Some [OF this] obtain k where k: "bin_of nrpbin ?rs r2 = Some k" by blast
    have "l = k" if "1 \<le> l \<and> l < nrpbin \<and> rupp ! (l - 1) * rupp ! (l - 1) \<le> r2 \<and> r2 < rupp ! l * rupp ! l"
      for l
      using that k iff [of r2 l] by simp
    with k upd [OF k] iff [of r2 k] show ?thesis by blast
  qed
  have edge: "npairs s' = (npairs s)[k + 1 := npairs s ! (k + 1) + 1]
      \<and> rpavg s' = (rpavg s)[k + 1 := rpavg s ! (k + 1) + SQRT r2]"
    if "k + 1 < nrpbin" and "r2 = rupp ! k * rupp ! k" for k
  proof -
    from that assms(3) have "k < k + 1" and "k + 1 < length rupp" by simp_all
    from sqr_edges_strict [OF assms(4,5) this] that
    have "bin_of nrpbin ?rs r2 = Some (k + 1)"
      by (simp add: iff)
    from upd [OF this] show ?thesis .
  qed
  have outside: "s' = s"
    if "r2 < rupp ! 0 * rupp ! 0 \<or> rupp ! (nrpbin - 1) * rupp ! (nrpbin - 1) \<le> r2"
  proof (cases "nrpbin = 0")
    case True
    then show ?thesis
      by (simp add: s' bin_of_def)
  next
    case False
    then have "0 < nrpbin" "nrpbin - 1 < nrpbin" by simp_all
    with that have "r2 < ?rs ! 0 \<or> ?rs ! (nrpbin - 1) \<le> r2" by simp
    from bin_of_None [OF this] show ?thesis
      by (simp add: s')
  qed
  have every: "scalar_kernel SQRT nrpbin ?rs first second t =
           fold (\<lambda>(i, j). scalar_pair SQRT nrpbin ?rs (x first ! i) (y first ! i) (z first ! i) second j)
             (List.product [0..<nelements first] [0..<nelements second]) t"
    by (rule scalar_kernel_product)
  have member: "(i, j) \<in> set (List.product [0..<nelements first] [0..<nelements second])"
    using assms(6,7) by simp
  have counts: "npairs (scalar_kernel SQRT nrpbin ?rs first second t) ! m =
           npairs t ! m
           + of_nat (length (filter (\<lambda>r2. 1 \<le> m \<and> m < nrpbin
                 \<and> rupp ! (m - 1) * rupp ! (m - 1) \<le> r2 \<and> r2 < rupp ! m * rupp ! m)
               (cell_r2s first second)))"
    unfolding scalar_kernel_counts(2) [OF assms(8)] count_bin_edges [OF assms(3,4,5)]
    by (rule refl)
  from every member counts inside edge outside show ?thesis by blast
qed

theorem scalar_kernel_bins_witness:
  "length [0, 1, 2 :: DOUBLE] = 3 \<and> sorted_wrt (<) [0, 1, 2 :: DOUBLE] \<and> (0 :: DOUBLE) \<le> [0, 1, 2] ! 0
   \<and> 0 < nelements \<lparr>x = [0], y = [0], z = [0], nelements = 1\<rparr>
   \<and> 0 < nelements \<lparr>x = [1, 2], y = [0, 0], z = [0, 0], nelements = 2\<rparr>
   \<and> 1 < nelements \<lparr>x = [1, 2], y = [0, 0], z = [0, 0], nelements = 2\<rparr>
   \<and> 2 < length (npairs \<lparr>npairs = [0, 0, 0], rpavg = [0, 0, 0]\<rparr>)
   \<and> scalar_kernel sqrt 3 (rupp_sqr_of 3 [0, 1, 2])
        \<lparr>x = [0], y = [0], z = [0], nelements = 1\<rparr>
        \<lparr>x = [1, 2], y = [0, 0], z = [0, 0], nelements = 2\<rparr>
        \<lparr>npairs = [0, 0, 0], rpavg = [0, 0, 0]\<rparr> =
      fold (\<lambda>(i, j). scalar_pair sqrt 3 (rupp_sqr_of 3 [0, 1, 2])
                 (x \<lparr>x = [0], y = [0], z = [0], nelements = 1\<rparr> ! i)
                 (y \<lparr>x = [0], y = [0], z = [0], nelements = 1\<rparr> ! i)
                 (z \<lparr>x = [0], y = [0], z = [0], nelements = 1\<rparr> ! i)
                 \<lparr>x = [1, 2], y = [0, 0], z = [0, 0], nelements = 2\<rparr> j)
        (List.product [0..<nelements \<lparr>x = [0], y = [0], z = [0], nelements = 1\<rparr>]
           [0..<nelements \<lparr>x = [1, 2], y = [0, 0], z = [0, 0], nelements = 2\<rparr>])
        \<lparr>npairs = [0, 0, 0], rpavg = [0, 0, 0]\<rparr>
   \<and> npairs (scalar_kernel sqrt 3 (rupp_sqr_of 3 [0, 1, 2])
        \<lparr>x = [0], y = [0], z = [0], nelements = 1\<rparr>
        \<lparr>x = [1, 2], y = [0, 0], z = [0, 0], nelements = 2\<rparr>
        \<lparr>npairs = [0, 0, 0], rpavg = [0, 0, 0]\<rparr>) ! 2 =
      npairs \<lparr>npairs = [0, 0, 0], rpavg = [0, 0, 0]\<rparr> ! 2
      + of_nat (length (filter (\<lambda>r2. (1::nat) \<le> 2 \<and> (2::nat) < 3
            \<and> [0, 1, 2] ! (2 - 1) * [0, 1, 2] ! (2 - 1) \<le> r2 \<and> r2 < [0, 1, 2] ! 2 * [0, 1, 2] ! 2)
          (cell_r2s \<lparr>x = [0], y = [0], z = [0], nelements = 1\<rparr>
             \<lparr>x = [1, 2], y = [0, 0], z = [0, 0], nelements = 2\<rparr>)))
   \<and> npairs (scalar_kernel sqrt 3 (rupp_sqr_of 3 [0, 1, 2])
        \<lparr>x = [0], y = [0], z = [0], nelements = 1\<rparr>
        \<lparr>x = [1, 2], y = [0, 0], z = [0, 0], nelements = 2\<rparr>
        \<lparr>npairs = [0, 0, 0], rpavg = [0, 0, 0]\<rparr>) = [0, 0, 1]
   \<and> sqr_dist 0 0 0 1 0 0 = [0, 1, 2] ! 1 * [0, 1, 2] ! 1
   \<and> [0, 1, 2] ! 0 * [0, 1, 2] ! 0 \<le> sqr_dist 0 0 0 1 0 0
   \<and> sqr_dist 0 0 0 1 0 0 < [0, 1, 2] ! 2 * [0, 1, 2] ! 2
   \<and> npairs (scalar_pair sqrt 3 (rupp_sqr_of 3 [0, 1, 2]) 0 0 0
        \<lparr>x = [1, 2], y = [0, 0], z = [0, 0], nelements = 2\<rparr> 0
        \<lparr>npairs = [0, 0, 0], rpavg = [0, 0, 0]\<rparr>) = [0, 0, 1]
   \<and> [0, 1, 2] ! 2 * [0, 1, 2] ! 2 \<le> sqr_dist 0 0 0 2 0 0
   \<and> scalar_pair sqrt 3 (rupp_sqr_of 3 [0, 1, 2]) 0 0 0
        \<lparr>x = [1, 2], y = [0, 0], z = [0, 0], nelements = 2\<rparr> 1
        \<lparr>npairs = [0, 0, 0], rpavg = [0, 0, 0]\<rparr> = \<lparr>npairs = [0, 0, 0], rpavg = [0, 0, 0]\<rparr>"
proof -
  let ?first = "\<lparr>x = [0], y = [0], z = [0 :: DOUBLE], nelements = 1\<rparr>"
  let ?second = "\<lparr>x = [1, 2], y = [0, 0], z = [0, 0 :: DOUBLE], nelements = 2\<rparr>"
  let ?zero = "\<lparr>npairs = [0, 0, 0], rpavg = [0, 0, 0 :: DOUBLE]\<rparr>"
  have h: "length [0, 1, 2 :: DOUBLE] = 3" "sorted_wrt (<) [0, 1, 2 :: DOUBLE]"
    "(0 :: DOUBLE) \<le> [0, 1, 2] ! 0"
    by simp_all
  have g: "0 < nelements ?first" "0 < nelements ?second" "1 < nelements ?second"
    "2 < length (npairs ?zero)"
    by simp_all
  have r: "sqr_dist 0 0 0 1 0 0 = 1" "sqr_dist 0 0 0 2 0 0 = 4"
    by (simp_all add: sqr_dist_def)
  note t0 = scalar_kernel_bins [OF h g(1,2,4), where SQRT = sqrt and s = ?zero]
  note t1 = scalar_kernel_bins [OF h g(1,3,4), where SQRT = sqrt and s = ?zero]
  from t0 [THEN conjunct2, THEN conjunct2, THEN conjunct2, THEN conjunct2, THEN conjunct1,
      rule_format, of 1]
  have a: "npairs (scalar_pair sqrt 3 (rupp_sqr_of 3 [0, 1, 2]) 0 0 0 ?second 0 ?zero) = [0, 0, 1]"
    by (simp add: r eval_nat_numeral)
  from t1 [THEN conjunct2, THEN conjunct2, THEN conjunct2, THEN conjunct2, THEN conjunct2]
  have b: "scalar_pair sqrt 3 (rupp_sqr_of 3 [0, 1, 2]) 0 0 0 ?second 1 ?zero = ?zero"
    by (simp add: r)
  have c: "sqr_dist 0 0 0 1 0 0 = [0, 1, 2] ! 1 * [0, 1, 2] ! 1"
    "[0, 1, 2] ! 0 * [0, 1, 2] ! 0 \<le> sqr_dist 0 0 0 1 0 0"
    "sqr_dist 0 0 0 1 0 0 < [0, 1, 2] ! 2 * [0, 1, 2] ! 2"
    "[0, 1, 2] ! 2 * [0, 1, 2] ! 2 \<le> sqr_dist 0 0 0 2 0 0"
    by (simp_all add: r)
  show ?thesis
    by (intro conjI h g t0 [THEN conjunct1]
        t0 [THEN conjunct2, THEN conjunct2, THEN conjunct1]
        scalar_kernel_example a b c)
qed

text \<open>
  Claim C6. The kernel applies no self-pair filter: run on a cell against itself it executes
  the loop body on every index pair \<open>(i, j)\<close>, the pairs \<open>(i, i)\<close> included, and such a
  pair has \<open>r2 = 0\<close>. With bin edges as the data model has them (at least two, strictly
  increasing, the first not negative) the self-pair leaves \<^verbatim>\<open>npairs\<close> unchanged exactly when
  \<open>rupp[0]\<^sup>2 > 0\<close> (then it changes nothing at all), and when \<open>rupp[0] = 0\<close> it
  increments \<open>npairs[1]\<close>.
\<close>

theorem self_pair_counted:
  fixes SQRT :: "DOUBLE \<Rightarrow> DOUBLE" and nrpbin :: nat and rupp :: "DOUBLE list"
    and c :: cellarray and i :: nat and s :: counters
  defines "s' \<equiv> scalar_pair SQRT nrpbin (rupp_sqr_of nrpbin rupp) (x c ! i) (y c ! i) (z c ! i) c i s"
  assumes "length rupp = nrpbin" and "sorted_wrt (<) rupp" and "0 \<le> rupp ! 0" and "2 \<le> nrpbin"
    and "length (npairs s) = nrpbin" and "i < nelements c"
  shows "scalar_kernel SQRT nrpbin (rupp_sqr_of nrpbin rupp) c c t =
           fold (\<lambda>(i, j). scalar_pair SQRT nrpbin (rupp_sqr_of nrpbin rupp) (x c ! i) (y c ! i) (z c ! i) c j)
             (List.product [0..<nelements c] [0..<nelements c]) t
       \<and> (i, i) \<in> set (List.product [0..<nelements c] [0..<nelements c])
       \<and> sqr_dist (x c ! i) (y c ! i) (z c ! i) (x c ! i) (y c ! i) (z c ! i) = 0
       \<and> (npairs s' = npairs s \<longleftrightarrow> 0 < rupp ! 0 * rupp ! 0)
       \<and> (0 < rupp ! 0 * rupp ! 0 \<longrightarrow> s' = s)
       \<and> (rupp ! 0 = 0 \<longrightarrow> npairs s' = (npairs s)[1 := npairs s ! 1 + 1])"
proof -
  let ?rs = "rupp_sqr_of nrpbin rupp"
  have s': "s' = (case bin_of nrpbin ?rs 0 of None \<Rightarrow> s | Some k \<Rightarrow> bump k (SQRT 0) s)"
    by (simp add: s'_def scalar_pair_def bin_r2_bin_of)
  have pos: "s' = s" if "0 < rupp ! 0 * rupp ! 0"
  proof -
    from that assms(5) have "0 < ?rs ! 0 \<or> ?rs ! (nrpbin - 1) \<le> 0" by simp
    from bin_of_None [OF this] show ?thesis by (simp add: s')
  qed
  have zero: "npairs s' = (npairs s)[1 := npairs s ! 1 + 1]" if "rupp ! 0 = 0"
  proof -
    from assms(2,5) have "0 < (1::nat)" and "1 < length rupp" by simp_all
    from sqr_edges_strict [OF assms(3,4) this] that assms(5)
    have "bin_of nrpbin ?rs 0 = Some 1"
      by (simp add: bin_of_sqr_iff [OF assms(2,3,4)])
    then show ?thesis by (simp add: s' bump_def)
  qed
  have "0 < rupp ! 0 * rupp ! 0" if same: "npairs s' = npairs s"
  proof (rule ccontr)
    assume "\<not> 0 < rupp ! 0 * rupp ! 0"
    with assms(4) have "rupp ! 0 = 0"
      by (simp add: not_less mult_le_0_iff)
    from zero [OF this] have "npairs s' ! 1 = npairs s ! 1 + 1"
      using assms(5,6) by simp
    with same show False by simp
  qed
  moreover have "npairs s' = npairs s" if "0 < rupp ! 0 * rupp ! 0"
    using pos [OF that] by simp
  ultimately have iff: "npairs s' = npairs s \<longleftrightarrow> 0 < rupp ! 0 * rupp ! 0" by blast
  from assms(7) have "(i, i) \<in> set (List.product [0..<nelements c] [0..<nelements c])" by simp
  with pos zero iff show ?thesis
    by (simp add: scalar_kernel_product)
qed

theorem self_pair_counted_witness:
  "length [0, 2 :: DOUBLE] = 2 \<and> sorted_wrt (<) [0, 2 :: DOUBLE] \<and> (0::DOUBLE) \<le> [0, 2] ! 0
   \<and> length (npairs \<lparr>npairs = [0, 0], rpavg = [0, 0]\<rparr>) = 2
   \<and> 0 < nelements \<lparr>x = [0, 1], y = [0, 0], z = [0, 0], nelements = 2\<rparr>
   \<and> [0, 2 :: DOUBLE] ! 0 = 0
   \<and> npairs (scalar_pair sqrt 2 (rupp_sqr_of 2 [0, 2]) 0 0 0
        \<lparr>x = [0, 1], y = [0, 0], z = [0, 0], nelements = 2\<rparr> 0
        \<lparr>npairs = [0, 0], rpavg = [0, 0]\<rparr>) = [0, 1]
   \<and> length [1 / 2, 2 :: DOUBLE] = 2 \<and> sorted_wrt (<) [1 / 2, 2 :: DOUBLE] \<and> (0::DOUBLE) \<le> [1 / 2, 2] ! 0
   \<and> (0::DOUBLE) < [1 / 2, 2] ! 0 * [1 / 2, 2] ! 0
   \<and> scalar_pair sqrt 2 (rupp_sqr_of 2 [1 / 2, 2]) 0 0 0
        \<lparr>x = [0, 1], y = [0, 0], z = [0, 0], nelements = 2\<rparr> 0
        \<lparr>npairs = [0, 0], rpavg = [0, 0]\<rparr> = \<lparr>npairs = [0, 0], rpavg = [0, 0]\<rparr>"
proof -
  have h: "length [0, 2 :: DOUBLE] = 2" "sorted_wrt (<) [0, 2 :: DOUBLE]" "(0::DOUBLE) \<le> [0, 2] ! 0"
    "(2::nat) \<le> 2" "length (npairs \<lparr>npairs = [0, 0], rpavg = [0, 0]\<rparr>) = 2"
    "0 < nelements \<lparr>x = [0, 1], y = [0, 0], z = [0, 0], nelements = 2\<rparr>"
    by simp_all
  have g: "length [1 / 2, 2 :: DOUBLE] = 2" "sorted_wrt (<) [1 / 2, 2 :: DOUBLE]"
    "(0::DOUBLE) \<le> [1 / 2, 2] ! 0"
    by simp_all
  from self_pair_counted [OF h]
  have "npairs (scalar_pair sqrt 2 (rupp_sqr_of 2 [0, 2]) 0 0 0
        \<lparr>x = [0, 1], y = [0, 0], z = [0, 0], nelements = 2\<rparr> 0
        \<lparr>npairs = [0, 0], rpavg = [0, 0]\<rparr>) = [0, 1]"
    by simp
  moreover from self_pair_counted [OF g h(4,5,6)]
  have "scalar_pair sqrt 2 (rupp_sqr_of 2 [1 / 2, 2]) 0 0 0
        \<lparr>x = [0, 1], y = [0, 0], z = [0, 0], nelements = 2\<rparr> 0
        \<lparr>npairs = [0, 0], rpavg = [0, 0]\<rparr> = \<lparr>npairs = [0, 0], rpavg = [0, 0]\<rparr>"
    by simp
  ultimately show ?thesis
    by simp
qed

section \<open>The vector kernel and the scalar kernel\<close>

text \<open>
  Claim C3. On a table of squared edges that is ordered (as the squares of well-formed bin
  edges are), for any two cells, any counters and any vector width, the vector kernel and
  the scalar kernel leave the same counts \<open>npairs\<close>, and the same distance sums \<open>rpavg[k]\<close>
  for every bin \<open>k \<ge> 1\<close>, hence sums within \<open>nrpbin * eps * max_r\<close> of each other for any
  \<open>eps\<close> and \<open>max_r\<close> that are not negative. Numbers are exact here, so the only difference
  left to the two builds is the rounding of the machine's arithmetic.
\<close>

theorem avx_scalar_equivalence:
  assumes "length rupp_sqr = nrpbin" and "sorted rupp_sqr"
  shows "npairs (avx_kernel SQRT NVEC nrpbin rupp_sqr first second s) =
      npairs (scalar_kernel SQRT nrpbin rupp_sqr first second s)
    \<and> length (rpavg (avx_kernel SQRT NVEC nrpbin rupp_sqr first second s)) =
      length (rpavg (scalar_kernel SQRT nrpbin rupp_sqr first second s))
    \<and> (\<forall>k. 1 \<le> k \<and> k < length (rpavg s) \<longrightarrow>
          rpavg (avx_kernel SQRT NVEC nrpbin rupp_sqr first second s) ! k =
          rpavg (scalar_kernel SQRT nrpbin rupp_sqr first second s) ! k)
    \<and> (\<forall>k eps max_r. 1 \<le> k \<and> k < length (rpavg s) \<and> 0 \<le> eps \<and> 0 \<le> max_r \<longrightarrow>
          \<bar>rpavg (avx_kernel SQRT NVEC nrpbin rupp_sqr first second s) ! k
             - rpavg (scalar_kernel SQRT nrpbin rupp_sqr first second s) ! k\<bar>
            \<le> real nrpbin * eps * max_r)"
proof -
  have sorted: "rupp_sqr ! i \<le> rupp_sqr ! j" if "i \<le> j" and "j \<le> nrpbin - 1" for i j
    using assms that by (rule sorted_table)
  have "npairs (avx_kernel SQRT NVEC nrpbin rupp_sqr first second s) =
      npairs (scalar_kernel SQRT nrpbin rupp_sqr first second s)"
    by (rule nth_equalityI)
      (simp_all add: avx_kernel_counts [OF sorted] scalar_kernel_counts)
  moreover have "length (rpavg (avx_kernel SQRT NVEC nrpbin rupp_sqr first second s)) =
      length (rpavg (scalar_kernel SQRT nrpbin rupp_sqr first second s))"
    by (simp add: avx_kernel_dists(1) [OF sorted] scalar_kernel_dists(1))
  moreover have eq: "\<forall>k. 1 \<le> k \<and> k < length (rpavg s) \<longrightarrow>
          rpavg (avx_kernel SQRT NVEC nrpbin rupp_sqr first second s) ! k =
          rpavg (scalar_kernel SQRT nrpbin rupp_sqr first second s) ! k"
    by (simp add: avx_kernel_dists(2) [OF sorted] scalar_kernel_dists(2))
  moreover have "\<forall>k eps max_r. 1 \<le> k \<and> k < length (rpavg s) \<and> 0 \<le> eps \<and> 0 \<le> max_r \<longrightarrow>
          \<bar>rpavg (avx_kernel SQRT NVEC nrpbin rupp_sqr first second s) ! k
             - rpavg (scalar_kernel SQRT nrpbin rupp_sqr first second s) ! k\<bar>
            \<le> real nrpbin * eps * max_r"
    using eq by simp
  ultimately show ?thesis by blast
qed

theorem avx_scalar_equivalence_witness:
  "length [0, 1, 4, 9 :: DOUBLE] = 4 \<and> sorted [0, 1, 4, 9 :: DOUBLE]
   \<and> npairs (avx_kernel sqrt 4 4 [0, 1, 4, 9]
      \<lparr>x = [0], y = [0], z = [0], nelements = 1\<rparr>
      \<lparr>x = [7 / 5, 7 / 10, 5 / 2, 3, 1], y = [0, 0, 0, 0, 0], z = [0, 0, 0, 0, 0], nelements = 5\<rparr>
      \<lparr>npairs = [0, 0, 0, 0], rpavg = [0, 0, 0, 0]\<rparr>) =
     npairs (scalar_kernel sqrt 4 [0, 1, 4, 9]
      \<lparr>x = [0], y = [0], z = [0], nelements = 1\<rparr>
      \<lparr>x = [7 / 5, 7 / 10, 5 / 2, 3, 1], y = [0, 0, 0, 0, 0], z = [0, 0, 0, 0, 0], nelements = 5\<rparr>
      \<lparr>npairs = [0, 0, 0, 0], rpavg = [0, 0, 0, 0]\<rparr>)
   \<and> npairs (avx_kernel sqrt 4 4 [0, 1, 4, 9]
      \<lparr>x = [0], y = [0], z = [0], nelements = 1\<rparr>
      \<lparr>x = [7 / 5, 7 / 10, 5 / 2, 3, 1], y = [0, 0, 0, 0, 0], z = [0, 0, 0, 0, 0], nelements = 5\<rparr>
      \<lparr>npairs = [0, 0, 0, 0], rpavg = [0, 0, 0, 0]\<rparr>) = [0, 1, 2, 1]
   \<and> rpavg (avx_kernel sqrt 4 4 [0, 1, 4, 9]
      \<lparr>x = [0], y = [0], z = [0], nelements = 1\<rparr>
      \<lparr>x = [7 / 5, 7 / 10, 5 / 2, 3, 1], y = [0, 0, 0, 0, 0], z = [0, 0, 0, 0, 0], nelements = 5\<rparr>
      \<lparr>npairs = [0, 0, 0, 0], rpavg = [0, 0, 0, 0]\<rparr>) ! 2 =
     rpavg (scalar_kernel sqrt 4 [0, 1, 4, 9]
      \<lparr>x = [0], y = [0], z = [0], nelements = 1\<rparr>
      \<lparr>x = [7 / 5, 7 / 10, 5 / 2, 3, 1], y = [0, 0, 0, 0, 0], z = [0, 0, 0, 0, 0], nelements = 5\<rparr>
      \<lparr>npairs = [0, 0, 0, 0], rpavg = [0, 0, 0, 0]\<rparr>) ! 2"
proof -
  have a: "length [0, 1, 4, 9 :: DOUBLE] = 4" by simp
  have b: "sorted [0, 1, 4, 9 :: DOUBLE]" by simp
  note t = avx_scalar_equivalence [OF a b, of sqrt 4
      "\<lparr>x = [0], y = [0], z = [0], nelements = 1\<rparr>"
      "\<lparr>x = [7 / 5, 7 / 10, 5 / 2, 3, 1], y = [0, 0, 0, 0, 0], z = [0, 0, 0, 0, 0], nelements = 5\<rparr>"
      "\<lparr>npairs = [0, 0, 0, 0], rpavg = [0, 0, 0, 0]\<rparr>"]
  have c: "(1::nat) \<le> 2 \<and> 2 < length (rpavg \<lparr>npairs = [0, 0, 0, 0], rpavg = [0, 0, 0, 0 :: DOUBLE]\<rparr>)"
    by simp
  show ?thesis
    by (intro conjI a b t [THEN conjunct1] kernels_agree_ordered
        t [THEN conjunct2, THEN conjunct2, THEN conjunct1, rule_format, OF c])
qed

section \<open>The histogram returned\<close>

text \<open>
  Claim C7 (amended). The output loop (lines 393--403) starts at \<^verbatim>\<open>i = 1\<close>: with an output array
  of at least \<open>nrpbin\<close> slots it stores the counters \<open>npairs[1 .. nrpbin - 1]\<close> in the slots
  \<open>1 .. nrpbin - 1\<close> and writes no other slot. Slot 0 keeps the value the caller's array held,
  which is 0 only if the caller put 0 there; so do the slots from \<open>nrpbin\<close> on.
\<close>

theorem output_slots:
  assumes "nrpbin \<le> length paircounts"
  shows "length (histogram (report_bins nrpbin rupp paircounts s)) = length paircounts
    \<and> histogram (report_bins nrpbin rupp paircounts s) ! 0 = paircounts ! 0
    \<and> (\<forall>k. 1 \<le> k \<and> k < nrpbin \<longrightarrow>
          histogram (report_bins nrpbin rupp paircounts s) ! k = npairs s ! k)
    \<and> (\<forall>k. nrpbin \<le> k \<longrightarrow>
          histogram (report_bins nrpbin rupp paircounts s) ! k = paircounts ! k)"
  using assms by (simp add: histogram_report_bins_nth)

theorem output_slots_witness:
  "(2::nat) \<le> length [7, 0, 9 :: 32 word]
   \<and> length (histogram (report_bins 2 [0, 2] [7, 0, 9] \<lparr>npairs = [0, 4], rpavg = [0, 4]\<rparr>))
       = length [7, 0, 9 :: 32 word]
   \<and> histogram (report_bins 2 [0, 2] [7, 0, 9] \<lparr>npairs = [0, 4], rpavg = [0, 4]\<rparr>) ! 0
       = [7, 0, 9] ! 0
   \<and> histogram (report_bins 2 [0, 2] [7, 0, 9] \<lparr>npairs = [0, 4], rpavg = [0, 4]\<rparr>) ! 1
       = npairs \<lparr>npairs = [0, 4], rpavg = [0, 4]\<rparr> ! 1
   \<and> histogram (report_bins 2 [0, 2] [7, 0, 9] \<lparr>npairs = [0, 4], rpavg = [0, 4]\<rparr>) ! 2
       = [7, 0, 9] ! 2"
proof -
  have a: "(2::nat) \<le> length [7, 0, 9 :: 32 word]" by simp
  note t = output_slots [OF a, of "[0, 2]" "\<lparr>npairs = [0, 4], rpavg = [0, 4]\<rparr>"]
  from t have 1: "histogram (report_bins 2 [0, 2] [7, 0, 9] \<lparr>npairs = [0, 4], rpavg = [0, 4]\<rparr>) ! 1
       = npairs \<lparr>npairs = [0, 4], rpavg = [0, 4]\<rparr> ! 1"
    by (simp del: One_nat_def)
  from t have 2: "histogram (report_bins 2 [0, 2] [7, 0, 9] \<lparr>npairs = [0, 4], rpavg = [0, 4]\<rparr>) ! 2
       = [7, 0, 9] ! 2"
    by blast
  show ?thesis
    by (intro conjI a t [THEN conjunct1] t [THEN conjunct2, THEN conjunct1] 1 2)
qed

text \<open>
  The claim as stated fails: the counters of the two points \<open>(0, 0, 0)\<close> and \<open>(1, 0, 0)\<close> of
  one cell, with the edges 0 and 2, are reported into an array that held 7 in slot 0; the
  slot still holds 7.
\<close>

theorem slot_zero_kept:
  "histogram (report_bins 2 [0, 2] [7, 0]
     (scalar_kernel sqrt 2 [0, 4]
        \<lparr>x = [0, 1], y = [0, 0], z = [0, 0], nelements = 2\<rparr>
        \<lparr>x = [0, 1], y = [0, 0], z = [0, 0], nelements = 2\<rparr>
        \<lparr>npairs = [0, 0], rpavg = [0, 0]\<rparr>)) = [7, 4]
   \<and> [7, 4 :: 32 word] ! 0 \<noteq> 0"
  by (simp add: two_point_report)

section \<open>Width of the counters\<close>

text \<open>
  Claim C8 (amended). The counters are \<^verbatim>\<open>unsigned int\<close>, 32 bits wide, and the output array is
  \<^verbatim>\<open>int\<close>: with well-formed bin edges, a pass of the kernel over two cells followed by the
  output loop returns in slot \<open>k\<close> (for \<open>1 \<le> k < nrpbin\<close>) the counter's value before the pass
  plus the number of pairs of bin \<open>k\<close>, modulo \<open>2 ^ 32\<close>, not modulo \<open>2 ^ 64\<close>.
\<close>

theorem counters_32_bit:
  assumes "bin_edges nrpbin rupp" and "1 \<le> k" and "k < nrpbin" and "nrpbin \<le> length paircounts"
    and "k < length (npairs s)"
  shows "unat (histogram (report_bins nrpbin rupp paircounts
            (pair_kernel SQRT build nrpbin (rupp_sqr_of nrpbin rupp) first second s)) ! k) =
      (unat (npairs s ! k)
         + count_bin nrpbin (rupp_sqr_of nrpbin rupp) k (cell_r2s first second)) mod 2 ^ 32"
  using assms(2,3,4)
  by (simp add: histogram_report_bins_nth pair_kernel_counts(2) [OF assms(1,5)] unat_add_of_nat_32)

theorem counters_32_bit_witness:
  "bin_edges 2 [0, 2] \<and> (1::nat) \<le> 1 \<and> (1::nat) < 2 \<and> (2::nat) \<le> length [7, 0 :: 32 word]
   \<and> 1 < length (npairs \<lparr>npairs = [0, 0], rpavg = [0, 0]\<rparr>)
   \<and> unat (histogram (report_bins 2 [0, 2] [7, 0]
            (pair_kernel sqrt SCALAR 2 (rupp_sqr_of 2 [0, 2])
               \<lparr>x = [0, 1], y = [0, 0], z = [0, 0], nelements = 2\<rparr>
               \<lparr>x = [0, 1], y = [0, 0], z = [0, 0], nelements = 2\<rparr>
               \<lparr>npairs = [0, 0], rpavg = [0, 0]\<rparr>)) ! 1) =
      (unat (npairs \<lparr>npairs = [0, 0], rpavg = [0, 0]\<rparr> ! 1)
         + count_bin 2 (rupp_sqr_of 2 [0, 2]) 1
             (cell_r2s \<lparr>x = [0, 1], y = [0, 0], z = [0, 0], nelements = 2\<rparr>
                \<lparr>x = [0, 1], y = [0, 0], z = [0, 0], nelements = 2\<rparr>)) mod 2 ^ 32"
proof -
  have a: "bin_edges 2 [0, 2]" by (simp add: bin_edges_def)
  have b: "(1::nat) \<le> 1" "(1::nat) < 2" "(2::nat) \<le> length [7, 0 :: 32 word]"
    "1 < length (npairs \<lparr>npairs = [0, 0], rpavg = [0, 0]\<rparr>)"
    by simp_all
  show ?thesis by (intro conjI a b counters_32_bit [OF a b])
qed

text \<open>
  The claim as stated fails: a cell of 65536 points in one place has \<open>2 ^ 32\<close> pairs in bin
  1, far below \<open>2 ^ 64\<close>, and the slot returned for that bin holds 0.
\<close>

theorem counter_wraps_at_32_bits:
  "histogram (report_bins 2 [0, 1] [0, 0]
     (scalar_kernel sqrt 2 [0, 1]
        \<lparr>x = replicate 65536 0, y = replicate 65536 0, z = replicate 65536 0, nelements = 65536\<rparr>
        \<lparr>x = replicate 65536 0, y = replicate 65536 0, z = replicate 65536 0, nelements = 65536\<rparr>
        \<lparr>npairs = [0, 0], rpavg = [0, 0]\<rparr>)) = [0, 0]
   \<and> count_bin 2 [0, 1] 1
       (cell_r2s
          \<lparr>x = replicate 65536 0, y = replicate 65536 0, z = replicate 65536 0, nelements = 65536\<rparr>
          \<lparr>x = replicate 65536 0, y = replicate 65536 0, z = replicate 65536 0, nelements = 65536\<rparr>)
       = 4294967296
   \<and> (4294967296 :: nat) < 2 ^ 64"
proof (intro conjI)
  let ?c = "\<lparr>x = replicate 65536 0, y = replicate 65536 0, z = replicate 65536 (0::DOUBLE),
      nelements = 65536\<rparr>"
  let ?s = "scalar_kernel sqrt 2 [0, 1] ?c ?c \<lparr>npairs = [0, 0], rpavg = [0, 0]\<rparr>"
  have n: "(65536::nat) * 65536 = 4294967296" by simp
  have s: "npairs ?s = [0, 0]"
    unfolding crowd_kernel crowd_wraps by (rule refl)
  have len: "length (histogram (report_bins 2 [0, 1] [0, 0] ?s)) = 2"
    by (simp only: histogram_report_bins_nth(1)) simp
  have "histogram (report_bins 2 [0, 1] [0, 0] ?s) ! 0 = 0"
    "histogram (report_bins 2 [0, 1] [0, 0] ?s) ! 1 = 0"
    unfolding histogram_report_bins_nth(2) s by simp_all
  with list_of_two [OF len] show "histogram (report_bins 2 [0, 1] [0, 0] ?s) = [0, 0]"
    by simp
  show "count_bin 2 [0, 1] 1 (cell_r2s ?c ?c) = 4294967296"
    unfolding crowd_count_bin [OF bin_of_zero_one] if_P [OF refl] by (rule n)
  show "(4294967296 :: nat) < 2 ^ 64" by simp
qed

section \<open>Total count\<close>




section \<open>Symmetry of the cross-correlation\<close>



section \<open>Independence of the thread count\<close>



end
